theory Spec2Isabelle
  imports
    Complex_Main
    "HOL-Library.AList"
    "HOL-Library.Multiset"
    "HOL-Library.Char_ord"
    "HOL-Library.List_Lexorder"
begin

section \<open>Vulnerability-aware hardening of q-gram sets: the embedding\<close>

text \<open>
  The development follows \<^verbatim>\<open>hardening.py\<close> (the Dice similarity, the class \<^verbatim>\<open>VAH\<close> with
  \<^verbatim>\<open>generate_reference_sets\<close> and \<^verbatim>\<open>harden_with_vah_ref_sets\<close>) and the function
  \<^verbatim>\<open>get_q_grams_to_be_hardened\<close> of \<^verbatim>\<open>main.py\<close>.

  \<^item> A Python \<^verbatim>\<open>set\<close> of q-grams is a HOL set of strings; \<^verbatim>\<open>len\<close> is \<open>card\<close>.
    Python fixes no iteration order for a set, so every function that iterates a set takes
    the enumeration \<open>iter\<close> as a parameter.
  \<^item> A Python \<^verbatim>\<open>dict\<close> is an association list in insertion order: assignment is
    \<open>AList.update\<close> (an existing key keeps its place, a new key goes to the end), \<^verbatim>\<open>del\<close> is
    \<open>AList.delete\<close>, lookup is \<open>map_of\<close>.
  \<^item> Exceptions are values of \<open>error\<close>; a function that can raise returns \<open>error + 'a\<close>.
  \<^item> The module \<^verbatim>\<open>random\<close> is a library outside the repository: its generator is the
    parameter \<open>R\<close>, and the generator's state is passed explicitly.
  \<^item> The Dice score is the exact rational \<open>2\<cdot>|A\<inter>B| / (|A|+|B|)\<close>. The source computes the
    correctly rounded double of the same quotient; for sets of fewer than \<open>2\<^sup>2\<^sup>6\<close> elements
    two such quotients are equal as doubles exactly when they are equal as rationals.
  \<^item> Timing and \<^verbatim>\<open>print\<close> calls, and the two variables that are only printed
    (\<^verbatim>\<open>q_gram_to_quali_mapping\<close>, \<^verbatim>\<open>hardened_rec_count\<close>), are left out.
\<close>

datatype error =
    ZeroDivisionError
  | AssertionError string
  | KeyError
  | IndexError
  | ValueError
  | TypeError

type_synonym qgram = string
type_synonym rec_id = string
type_synonym qgram_db = "(rec_id \<times> qgram set) list"
type_synonym freq_dist = "(qgram \<times> int) list"
type_synonym ref_table = "(qgram \<times> (nat \<times> qgram set) list) list"

subsection \<open>The library: random numbers, indexing, ranges, \<^verbatim>\<open>str\<close>\<close>

text \<open>
  The generator of Python's \<^verbatim>\<open>random\<close> module, as a parameter. \<open>rng_seed s\<close> is the state
  after \<^verbatim>\<open>random.seed(s)\<close>; the other fields are the draws of \<^verbatim>\<open>randint(a, b)\<close>, of the
  position picked by \<^verbatim>\<open>choice\<close> in a sequence of the given length, of
  \<^verbatim>\<open>sample(range(0, n), k)\<close> and of \<^verbatim>\<open>shuffle\<close>, each with the state that follows.
\<close>

record 'g pyrandom =
  rng_seed :: "int \<Rightarrow> 'g"
  rng_randint :: "int \<Rightarrow> int \<Rightarrow> 'g \<Rightarrow> int \<times> 'g"
  rng_choice :: "nat \<Rightarrow> 'g \<Rightarrow> nat \<times> 'g"
  rng_sample :: "nat \<Rightarrow> nat \<Rightarrow> 'g \<Rightarrow> nat list \<times> 'g"
  rng_shuffle :: "nat list \<Rightarrow> 'g \<Rightarrow> nat list \<times> 'g"

text \<open>What the library documents of these draws.\<close>

definition pyrandom_ok :: "'g pyrandom \<Rightarrow> bool" where
  "pyrandom_ok R \<longleftrightarrow>
     (\<forall>a b g. a \<le> b \<longrightarrow> a \<le> fst (rng_randint R a b g) \<and> fst (rng_randint R a b g) \<le> b) \<and>
     (\<forall>n g. 0 < n \<longrightarrow> fst (rng_choice R n g) < n) \<and>
     (\<forall>n k g. k \<le> n \<longrightarrow>
        distinct (fst (rng_sample R n k g)) \<and>
        set (fst (rng_sample R n k g)) \<subseteq> {0..<n} \<and>
        length (fst (rng_sample R n k g)) = k) \<and>
     (\<forall>xs g. mset (fst (rng_shuffle R xs g)) = mset xs)"

text \<open>An enumeration of the finite sets: each element once.\<close>

definition iter_ok :: "(qgram set \<Rightarrow> qgram list) \<Rightarrow> bool" where
  "iter_ok iter \<longleftrightarrow> (\<forall>S. finite S \<longrightarrow> set (iter S) = S \<and> distinct (iter S))"

text \<open>\<^verbatim>\<open>random.randint(a, b)\<close> raises ValueError on an empty range.\<close>

definition randint :: "'g pyrandom \<Rightarrow> int \<Rightarrow> int \<Rightarrow> 'g \<Rightarrow> error + int \<times> 'g" where
  "randint R a b g = (if b < a then Inl ValueError else Inr (rng_randint R a b g))"

text \<open>\<^verbatim>\<open>random.choice(seq)\<close> raises IndexError on an empty sequence.\<close>

definition choice :: "'g pyrandom \<Rightarrow> 'a list \<Rightarrow> 'g \<Rightarrow> error + 'a \<times> 'g" where
  "choice R xs g =
     (if xs = [] then Inl IndexError
      else (case rng_choice R (length xs) g of (k, g') \<Rightarrow> Inr (xs ! k, g')))"

text \<open>\<^verbatim>\<open>random.sample(range(0, n), k)\<close> raises ValueError when \<open>k\<close> exceeds the population.\<close>

definition sample_range :: "'g pyrandom \<Rightarrow> nat \<Rightarrow> nat \<Rightarrow> 'g \<Rightarrow> error + nat list \<times> 'g" where
  "sample_range R n k g = (if n < k then Inl ValueError else Inr (rng_sample R n k g))"

text \<open>\<^verbatim>\<open>xs[i]\<close>: a negative index counts from the end, an index out of range raises.\<close>

definition py_index :: "'a list \<Rightarrow> int \<Rightarrow> error + 'a" where
  "py_index xs i =
     (if 0 \<le> i \<and> i < int (length xs) then Inr (xs ! nat i)
      else if i < 0 \<and> 0 \<le> int (length xs) + i then Inr (xs ! nat (int (length xs) + i))
      else Inl IndexError)"

text \<open>\<^verbatim>\<open>xs[a:]\<close>: a negative start counts from the end, and the start is clipped to the list.\<close>

definition py_slice_from :: "'a list \<Rightarrow> int \<Rightarrow> 'a list" where
  "py_slice_from xs a =
     (if a < 0 then drop (nat (max (int (length xs) + a) 0)) xs else drop (nat a) xs)"

text \<open>\<^verbatim>\<open>range(0, n, step)\<close> for \<open>n \<ge> 0\<close>: a zero step raises, a negative step gives nothing.\<close>

definition py_range_step :: "nat \<Rightarrow> int \<Rightarrow> error + nat list" where
  "py_range_step n step =
     (if step = 0 then Inl ValueError
      else if step < 0 then Inr []
      else Inr (map (\<lambda>k. k * nat step) [0 ..< (n + nat step - 1) div nat step]))"

text \<open>\<^verbatim>\<open>str(n)\<close> for a non-negative integer: its decimal digits.\<close>

definition digit_char :: "nat \<Rightarrow> char" where
  "digit_char d = ''0123456789'' ! d"

fun str_nat :: "nat \<Rightarrow> string" where
  "str_nat n = (if n < 10 then [digit_char n] else str_nat (n div 10) @ [digit_char (n mod 10)])"

declare str_nat.simps [simp del]

subsection \<open>\<^verbatim>\<open>q_gram_dice_sim\<close>\<close>

definition q_gram_dice_sim :: "qgram set \<Rightarrow> qgram set \<Rightarrow> error + rat" where
  "q_gram_dice_sim q_gram_set1 q_gram_set2 =
     (let num_common_q_gram = card (q_gram_set1 \<inter> q_gram_set2) in
      if card q_gram_set1 + card q_gram_set2 = 0 then Inl ZeroDivisionError
      else
        (let sim = (2 * of_nat num_common_q_gram) / of_nat (card q_gram_set1 + card q_gram_set2) in
         if 0 \<le> sim \<and> sim \<le> 1 then Inr sim else Inl (AssertionError [])))"

subsection \<open>The class \<^verbatim>\<open>VAH\<close>\<close>

record vah =
  secret_seed :: int
  vuln_q_grams :: "qgram set"
  non_vuln_q_grams :: "qgram list"
  l_r :: int
  indexed_ref_sets :: "ref_table option"

definition VAH_init :: "int \<Rightarrow> qgram set \<Rightarrow> qgram list \<Rightarrow> int \<Rightarrow> vah" where
  "VAH_init seed hardened_q_grams non_freq_q_grams lr =
     \<lparr>secret_seed = seed, vuln_q_grams = hardened_q_grams,
      non_vuln_q_grams = non_freq_q_grams, l_r = lr, indexed_ref_sets = None\<rparr>"

subsection \<open>\<^verbatim>\<open>generate_reference_sets\<close>: the co-occurrence pools\<close>

text \<open>Lines 54-55: every vulnerable q-gram of the record takes the record's other q-grams.\<close>

fun co_update_loop ::
  "qgram set \<Rightarrow> qgram list \<Rightarrow> (qgram \<times> qgram set) list \<Rightarrow> error + (qgram \<times> qgram set) list"
where
  "co_update_loop qs [] co = Inr co"
| "co_update_loop qs (q_v # rest) co =
     (case map_of co q_v of
        None \<Rightarrow> Inl KeyError
      | Some pool \<Rightarrow> co_update_loop qs rest (AList.update q_v (pool \<union> (qs - {q_v})) co))"

text \<open>Lines 51-55.\<close>

fun co_occurrence_loop ::
  "(qgram set \<Rightarrow> qgram list) \<Rightarrow> qgram set \<Rightarrow> qgram_db \<Rightarrow> (qgram \<times> qgram set) list
     \<Rightarrow> error + (qgram \<times> qgram set) list"
where
  "co_occurrence_loop iter Qv [] co = Inr co"
| "co_occurrence_loop iter Qv ((rec_id, qs) # rest) co =
     (let vuln_qs = qs \<inter> Qv in
      if card vuln_qs > 0 then
        (case co_update_loop qs (iter vuln_qs) co of
           Inl e \<Rightarrow> Inl e
         | Inr co' \<Rightarrow> co_occurrence_loop iter Qv rest co')
      else co_occurrence_loop iter Qv rest co)"

text \<open>Lines 50-55; the comprehension of line 50 gives every vulnerable q-gram an empty pool.\<close>

definition co_occurrence_pools ::
  "(qgram set \<Rightarrow> qgram list) \<Rightarrow> qgram set \<Rightarrow> qgram_db \<Rightarrow> error + (qgram \<times> qgram set) list"
where
  "co_occurrence_pools iter Qv pub_db_q_gram_sets =
     co_occurrence_loop iter Qv pub_db_q_gram_sets (map (\<lambda>key. (key, {})) (iter Qv))"

subsection \<open>\<^verbatim>\<open>generate_reference_sets\<close>: the reference sets\<close>

text \<open>
  The two \<^verbatim>\<open>while\<close> loops of lines 71-72 and 76-77 differ in the list they draw from only.
  Nothing bounds the number of rounds, so the loop is a partial function: \<open>None\<close> is a run
  that never leaves the loop.
\<close>

partial_function (option) pad_loop ::
  "'g pyrandom \<Rightarrow> int \<Rightarrow> qgram list \<Rightarrow> qgram set \<Rightarrow> 'g \<Rightarrow> (error + qgram set \<times> 'g) option"
where
  "pad_loop R lr src qs_r g =
     (if int (card qs_r) < lr then
        (case randint R 0 (int (length src) - 1) g of
           Inl e \<Rightarrow> Some (Inl e)
         | Inr jg \<Rightarrow>
             (case py_index src (fst jg) of
                Inl e \<Rightarrow> Some (Inl e)
              | Inr q \<Rightarrow> pad_loop R lr src (insert q qs_r) (snd jg)))
      else Some (Inr (qs_r, g)))"

text \<open>Lines 68-79: the body of the loop over the chunk starts, up to the assertion.\<close>

definition make_ref_set ::
  "'g pyrandom \<Rightarrow> int \<Rightarrow> qgram list \<Rightarrow> qgram list \<Rightarrow> nat \<Rightarrow> nat \<Rightarrow> 'g
     \<Rightarrow> (error + qgram set \<times> 'g) option"
where
  "make_ref_set R lr co_occurring_q_grams non_vuln i qv_qs_r_count g =
     (let qs_r = set (take (nat lr) (drop i co_occurring_q_grams)) in
      case (if int (card qs_r) < lr \<and> qv_qs_r_count > 0 then
              pad_loop R lr co_occurring_q_grams qs_r g
            else if int (card qs_r) < lr \<and> qv_qs_r_count = 0 then
              pad_loop R lr non_vuln qs_r g
            else Some (Inr (qs_r, g))) of
        None \<Rightarrow> None
      | Some (Inl e) \<Rightarrow> Some (Inl e)
      | Some (Inr (qs_r', g')) \<Rightarrow>
          if int (card qs_r') = lr then Some (Inr (qs_r', g'))
          else Some (Inl (AssertionError
                 ''Length of the reference set does not match the expected length'')))"

text \<open>Lines 67-81: the loop over the chunk starts, for one vulnerable q-gram.\<close>

fun ref_sets_loop ::
  "'g pyrandom \<Rightarrow> int \<Rightarrow> qgram list \<Rightarrow> qgram list \<Rightarrow> nat list \<Rightarrow> nat \<times> qgram set list \<times> 'g
     \<Rightarrow> (error + nat \<times> qgram set list \<times> 'g) option"
where
  "ref_sets_loop R lr pool non_vuln [] st = Some (Inr st)"
| "ref_sets_loop R lr pool non_vuln (i # rest) (qv_qs_r_count, sets, g) =
     (case make_ref_set R lr pool non_vuln i qv_qs_r_count g of
        None \<Rightarrow> None
      | Some (Inl e) \<Rightarrow> Some (Inl e)
      | Some (Inr (qs_r, g')) \<Rightarrow>
          ref_sets_loop R lr pool non_vuln rest (qv_qs_r_count + 1, sets @ [qs_r], g'))"

text \<open>Lines 64-82 for one vulnerable q-gram, given its pool as a list.\<close>

definition ref_sets_for_pool ::
  "'g pyrandom \<Rightarrow> int \<Rightarrow> qgram list \<Rightarrow> qgram list \<Rightarrow> 'g
     \<Rightarrow> (error + nat \<times> qgram set list \<times> 'g) option"
where
  "ref_sets_for_pool R lr co_occurring_q_grams non_vuln g =
     (case py_range_step (length co_occurring_q_grams) lr of
        Inl e \<Rightarrow> Some (Inl e)
      | Inr starts \<Rightarrow> ref_sets_loop R lr co_occurring_q_grams non_vuln starts (0, [], g))"

text \<open>Lines 63-82: the loop over the vulnerable q-grams and their pools.\<close>

fun reference_sets_loop ::
  "'g pyrandom \<Rightarrow> (qgram set \<Rightarrow> qgram list) \<Rightarrow> int \<Rightarrow> qgram list \<Rightarrow> (qgram \<times> qgram set) list
     \<Rightarrow> (qgram \<times> qgram set list) list \<times> nat \<times> 'g
     \<Rightarrow> (error + (qgram \<times> qgram set list) list \<times> nat \<times> 'g) option"
where
  "reference_sets_loop R iter lr non_vuln [] st = Some (Inr st)"
| "reference_sets_loop R iter lr non_vuln ((q_v, pool) # rest) (reference_sets, total_qs_r_count, g) =
     (case ref_sets_for_pool R lr (iter pool) non_vuln g of
        None \<Rightarrow> None
      | Some (Inl e) \<Rightarrow> Some (Inl e)
      | Some (Inr (qv_qs_r_count, sets, g')) \<Rightarrow>
          reference_sets_loop R iter lr non_vuln rest
            (AList.update q_v sets reference_sets, total_qs_r_count + qv_qs_r_count, g'))"

text \<open>Lines 47-82: reseeding, the pools, the reference sets and their number.\<close>

definition build_reference_sets ::
  "'g pyrandom \<Rightarrow> (qgram set \<Rightarrow> qgram list) \<Rightarrow> vah \<Rightarrow> qgram_db
     \<Rightarrow> (error + (qgram \<times> qgram set list) list \<times> nat \<times> 'g) option"
where
  "build_reference_sets R iter self pub_db_q_gram_sets =
     (case co_occurrence_pools iter (vuln_q_grams self) pub_db_q_gram_sets of
        Inl e \<Rightarrow> Some (Inl e)
      | Inr co \<Rightarrow>
          reference_sets_loop R iter (l_r self) (non_vuln_q_grams self) co
            ([], 0, rng_seed R (secret_seed self)))"

subsection \<open>\<^verbatim>\<open>generate_reference_sets\<close>: the indices\<close>

text \<open>Lines 95-96: \<^verbatim>\<open>random_indices.pop()\<close> takes the last index.\<close>

fun assign_inner ::
  "qgram set list \<Rightarrow> nat list \<Rightarrow> (nat \<times> qgram set) list
     \<Rightarrow> error + (nat \<times> qgram set) list \<times> nat list"
where
  "assign_inner [] random_indices inner = Inr (inner, random_indices)"
| "assign_inner (ref_set # rest) random_indices inner =
     (if random_indices = [] then Inl IndexError
      else assign_inner rest (butlast random_indices)
             (AList.update (last random_indices) ref_set inner))"

text \<open>Lines 93-96.\<close>

fun assign_loop ::
  "(qgram \<times> qgram set list) list \<Rightarrow> nat list \<Rightarrow> ref_table \<Rightarrow> error + ref_table"
where
  "assign_loop [] random_indices tbl = Inr tbl"
| "assign_loop ((q_v, ref_sets) # rest) random_indices tbl =
     (case assign_inner ref_sets random_indices [] of
        Inl e \<Rightarrow> Inl e
      | Inr (inner, random_indices') \<Rightarrow>
          assign_loop rest random_indices' (AList.update q_v inner tbl))"

text \<open>Lines 89-101.\<close>

definition index_reference_sets ::
  "'g pyrandom \<Rightarrow> qgram set \<Rightarrow> (qgram \<times> qgram set list) list \<Rightarrow> nat \<Rightarrow> 'g
     \<Rightarrow> error + ref_table \<times> 'g"
where
  "index_reference_sets R Qv reference_sets total_qs_r_count g =
     (case sample_range R (total_qs_r_count * card Qv) total_qs_r_count g of
        Inl e \<Rightarrow> Inl e
      | Inr (random_indices, g1) \<Rightarrow>
          (case rng_shuffle R random_indices g1 of
             (shuffled, g2) \<Rightarrow>
               (case assign_loop reference_sets shuffled [] of
                  Inl e \<Rightarrow> Inl e
                | Inr indexed_reference_sets \<Rightarrow>
                    if length indexed_reference_sets = length reference_sets
                       \<and> length reference_sets = card Qv
                    then Inr (indexed_reference_sets, g2)
                    else Inl (AssertionError ''Mismatch in reference sets generated''))))"

text \<open>
  The method: the state \<open>g0\<close> of the generator at the call is overwritten by the reseeding
  of line 47. The result is the object with its table set, and the generator's state.
\<close>

definition generate_reference_sets ::
  "'g pyrandom \<Rightarrow> (qgram set \<Rightarrow> qgram list) \<Rightarrow> vah \<Rightarrow> qgram_db \<Rightarrow> 'g
     \<Rightarrow> (error + vah \<times> 'g) option"
where
  "generate_reference_sets R iter self pub_db_q_gram_sets g0 =
     (case build_reference_sets R iter self pub_db_q_gram_sets of
        None \<Rightarrow> None
      | Some (Inl e) \<Rightarrow> Some (Inl e)
      | Some (Inr (reference_sets, total_qs_r_count, g)) \<Rightarrow>
          (case index_reference_sets R (vuln_q_grams self) reference_sets total_qs_r_count g of
             Inl e \<Rightarrow> Some (Inl e)
           | Inr (indexed_reference_sets, g') \<Rightarrow>
               Some (Inr (self\<lparr>indexed_ref_sets := Some indexed_reference_sets\<rparr>, g'))))"

subsection \<open>\<^verbatim>\<open>harden_with_vah_ref_sets\<close>\<close>

text \<open>Lines 130-131: the score of the record's set against every reference set.\<close>

fun sim_scores_loop :: "qgram set \<Rightarrow> (nat \<times> qgram set) list \<Rightarrow> error + (nat \<times> rat) list" where
  "sim_scores_loop qs [] = Inr []"
| "sim_scores_loop qs ((ref_id, ref_set) # rest) =
     (case q_gram_dice_sim qs ref_set of
        Inl e \<Rightarrow> Inl e
      | Inr sim \<Rightarrow>
          (case sim_scores_loop qs rest of
             Inl e \<Rightarrow> Inl e
           | Inr scores \<Rightarrow> Inr ((ref_id, sim) # scores)))"

text \<open>
  Lines 133-144. \<^verbatim>\<open>sorted\<close> is stable, also with \<^verbatim>\<open>reverse=True\<close>: it is the stable sort
  by the negated score. The loop of lines 138-142 keeps the leading items whose score is
  the first one's.
\<close>

definition select_qualifier ::
  "'g pyrandom \<Rightarrow> (nat \<times> rat) list \<Rightarrow> 'g \<Rightarrow> error + nat \<times> 'g"
where
  "select_qualifier R sim_scores g =
     (let sorted_items = sort_key (\<lambda>item. - snd item) sim_scores in
      case sorted_items of
        [] \<Rightarrow> Inl IndexError
      | first_item # _ \<Rightarrow>
          (let max_value = snd first_item;
               max_keys = map fst (takeWhile (\<lambda>item. snd item = max_value) sorted_items)
           in choice R max_keys g))"

text \<open>Lines 157-164: the frequency distribution after one replacement.\<close>

definition update_f_dist :: "qgram \<Rightarrow> qgram \<Rightarrow> freq_dist \<Rightarrow> error + freq_dist" where
  "update_f_dist q_v replacement q_gram_f_dist =
     (case map_of q_gram_f_dist q_v of
        None \<Rightarrow>
          Inl (AssertionError (''Q-gram '' @ q_v @ '' not found in the frequency distribution''))
      | Some c \<Rightarrow>
          (let d1 = AList.update q_v (c - 1) q_gram_f_dist;
               d2 = (if c - 1 = 0 then AList.delete q_v d1 else d1);
               d3 = (if map_of d2 replacement = None then AList.update replacement 0 d2 else d2)
           in case map_of d3 replacement of
                None \<Rightarrow> Inl KeyError
              | Some r \<Rightarrow> Inr (AList.update replacement (r + 1) d3)))"

text \<open>Lines 129-164: one vulnerable q-gram of one record.\<close>

definition harden_q_gram ::
  "'g pyrandom \<Rightarrow> ref_table option \<Rightarrow> qgram \<Rightarrow> qgram set \<times> freq_dist \<times> 'g
     \<Rightarrow> error + qgram set \<times> freq_dist \<times> 'g"
where
  "harden_q_gram R table q_v st =
     (case st of (qs, q_gram_f_dist, g) \<Rightarrow>
      (case table of
         None \<Rightarrow> Inl TypeError
       | Some tbl \<Rightarrow>
      (case map_of tbl q_v of
         None \<Rightarrow> Inl KeyError
       | Some ref_sets \<Rightarrow>
      (case sim_scores_loop qs ref_sets of
         Inl e \<Rightarrow> Inl e
       | Inr sim_scores \<Rightarrow>
      (case select_qualifier R sim_scores g of
         Inl e \<Rightarrow> Inl e
       | Inr (qualifier, g') \<Rightarrow>
          (let replacement = q_v @ str_nat qualifier in
           if q_v \<notin> qs then Inl KeyError
           else
             (case update_f_dist q_v replacement q_gram_f_dist of
                Inl e \<Rightarrow> Inl e
              | Inr q_gram_f_dist' \<Rightarrow>
                  Inr (insert replacement (qs - {q_v}), q_gram_f_dist', g'))))))))"

text \<open>Lines 128-164: the vulnerable q-grams of one record, in the order of the iteration.\<close>

fun harden_q_grams ::
  "'g pyrandom \<Rightarrow> ref_table option \<Rightarrow> qgram list \<Rightarrow> qgram set \<times> freq_dist \<times> 'g
     \<Rightarrow> error + qgram set \<times> freq_dist \<times> 'g"
where
  "harden_q_grams R table [] st = Inr st"
| "harden_q_grams R table (q_v # rest) st =
     (case harden_q_gram R table q_v st of
        Inl e \<Rightarrow> Inl e
      | Inr st' \<Rightarrow> harden_q_grams R table rest st')"

text \<open>Lines 124-167: the loop over the records.\<close>

fun harden_records ::
  "'g pyrandom \<Rightarrow> (qgram set \<Rightarrow> qgram list) \<Rightarrow> qgram set \<Rightarrow> ref_table option \<Rightarrow> qgram_db
     \<Rightarrow> freq_dist \<times> 'g \<Rightarrow> error + qgram_db \<times> freq_dist \<times> 'g"
where
  "harden_records R iter Qv table [] (q_gram_f_dist, g) = Inr ([], q_gram_f_dist, g)"
| "harden_records R iter Qv table ((rec_id, qs) # rest) (q_gram_f_dist, g) =
     (let vuln_qs = qs \<inter> Qv in
      if card vuln_qs > 0 then
        (case harden_q_grams R table (iter vuln_qs) (qs, q_gram_f_dist, g) of
           Inl e \<Rightarrow> Inl e
         | Inr (qs', q_gram_f_dist', g') \<Rightarrow>
             (case harden_records R iter Qv table rest (q_gram_f_dist', g') of
                Inl e \<Rightarrow> Inl e
              | Inr (hardened, q_gram_f_dist'', g'') \<Rightarrow>
                  Inr ((rec_id, qs') # hardened, q_gram_f_dist'', g'')))
      else
        (case harden_records R iter Qv table rest (q_gram_f_dist, g) of
           Inl e \<Rightarrow> Inl e
         | Inr (hardened, q_gram_f_dist'', g'') \<Rightarrow>
             Inr ((rec_id, qs) # hardened, q_gram_f_dist'', g'')))"

text \<open>
  The method: the state \<open>g0\<close> of the generator at the call is overwritten by the reseeding
  of line 118. The result is the returned dictionary, the frequency distribution as the
  call leaves it, and the generator's state.
\<close>

definition harden_with_vah_ref_sets ::
  "'g pyrandom \<Rightarrow> (qgram set \<Rightarrow> qgram list) \<Rightarrow> vah \<Rightarrow> qgram_db \<Rightarrow> freq_dist \<Rightarrow> 'g
     \<Rightarrow> error + qgram_db \<times> freq_dist \<times> 'g"
where
  "harden_with_vah_ref_sets R iter self data_dict q_gram_f_dist g0 =
     harden_records R iter (vuln_q_grams self) (indexed_ref_sets self) data_dict
       (q_gram_f_dist, rng_seed R (secret_seed self))"

subsection \<open>\<^verbatim>\<open>get_q_grams_to_be_hardened\<close>\<close>

definition get_q_grams_to_be_hardened :: "freq_dist \<Rightarrow> int \<Rightarrow> qgram list \<times> qgram list" where
  "get_q_grams_to_be_hardened q_gram_dict vuln_q_gram_count =
     (let sorted_q_grams = sort_key snd q_gram_dict;
          vuln_q_grams = map fst (py_slice_from sorted_q_grams (- vuln_q_gram_count));
          non_vuln_q_grams = map fst (py_slice_from sorted_q_grams vuln_q_gram_count)
      in (vuln_q_grams, non_vuln_q_grams))"

subsection \<open>Derived notions used in the statements\<close>

text \<open>The sum of the counts of a frequency distribution.\<close>

definition f_dist_total :: "freq_dist \<Rightarrow> int" where
  "f_dist_total d = sum_list (map snd d)"

text \<open>The count of a q-gram in a frequency distribution: \<^verbatim>\<open>q_gram_f_dist.get(q, 0)\<close>.\<close>

definition f_dist_count :: "freq_dist \<Rightarrow> qgram \<Rightarrow> int" where
  "f_dist_count q_gram_f_dist q = (case map_of q_gram_f_dist q of None \<Rightarrow> 0 | Some c \<Rightarrow> c)"

text \<open>All the indices of a table, over all vulnerable q-grams.\<close>

definition table_indices :: "ref_table \<Rightarrow> nat list" where
  "table_indices tbl = concat (map (\<lambda>entry. map fst (snd entry)) tbl)"

text \<open>All the reference sets of a table.\<close>

definition table_ref_sets :: "ref_table \<Rightarrow> qgram set list" where
  "table_ref_sets tbl = concat (map (\<lambda>entry. map snd (snd entry)) tbl)"

text \<open>
  The qualified tokens of a vulnerable q-gram: the q-gram followed by the decimal form of
  an index registered under it in the table.
\<close>

definition qualified_tokens :: "ref_table option \<Rightarrow> qgram \<Rightarrow> qgram set" where
  "qualified_tokens table q_v =
     (case table of
        None \<Rightarrow> {}
      | Some tbl \<Rightarrow>
          (case map_of tbl q_v of
             None \<Rightarrow> {}
           | Some ref_sets \<Rightarrow> (\<lambda>ref_id. q_v @ str_nat ref_id) ` fst ` set ref_sets))"

text \<open>
  A generator for concrete runs: its state is a counter, \<^verbatim>\<open>randint\<close> and \<^verbatim>\<open>choice\<close> walk
  through their range with it, \<^verbatim>\<open>sample\<close> takes the first \<open>k\<close> numbers and \<^verbatim>\<open>shuffle\<close>
  reverses.
\<close>

definition counter_rng :: "nat pyrandom" where
  "counter_rng =
     \<lparr>rng_seed = (\<lambda>s. nat \<bar>s\<bar>),
      rng_randint = (\<lambda>a b g. (a + int g mod (b - a + 1), Suc g)),
      rng_choice = (\<lambda>n g. (g mod n, Suc g)),
      rng_sample = (\<lambda>n k g. ([0..<k], g)),
      rng_shuffle = (\<lambda>xs g. (rev xs, g))\<rparr>"

subsection \<open>The sampler as the specification describes it\<close>




section \<open>Properties\<close>

subsection \<open>The Dice similarity\<close>

lemma dice_num_le:
  assumes "finite A" "finite B"
  shows "2 * card (A \<inter> B) \<le> card A + card B"
proof -
  have "card (A \<inter> B) \<le> card A" using assms by (simp add: card_mono)
  moreover have "card (A \<inter> B) \<le> card B" using assms by (simp add: card_mono)
  ultimately show ?thesis by simp
qed

lemma dice_num_eq:
  assumes "finite A" "finite B"
  shows "2 * card (A \<inter> B) = card A + card B \<longleftrightarrow> A = B"
proof
  assume eq: "2 * card (A \<inter> B) = card A + card B"
  have a: "card (A \<inter> B) \<le> card A" using assms by (simp add: card_mono)
  have b: "card (A \<inter> B) \<le> card B" using assms by (simp add: card_mono)
  from eq a b have "card (A \<inter> B) = card A" "card (A \<inter> B) = card B" by simp_all
  then have "A \<inter> B = A" "A \<inter> B = B"
    using assms by (simp_all add: card_subset_eq)
  then show "A = B" by blast
next
  assume "A = B" then show "2 * card (A \<inter> B) = card A + card B" by simp
qed

lemma dice_quotient:
  fixes n d :: nat
  assumes "0 < d" "2 * n \<le> d"
  defines "s \<equiv> (2 * of_nat n / of_nat d :: rat)"
  shows "0 \<le> s" "s \<le> 1" "s = 1 \<longleftrightarrow> 2 * n = d" "s = 0 \<longleftrightarrow> n = 0"
proof -
  have dpos: "(0::rat) < of_nat d" using assms(1) by simp
  have num: "(2 * of_nat n :: rat) = of_nat (2 * n)" by simp
  have le: "(of_nat (2 * n) :: rat) \<le> of_nat d" using assms(2) by (simp only: of_nat_le_iff)
  show "0 \<le> s" unfolding s_def by simp
  show "s \<le> 1" unfolding s_def num using le dpos by (simp only: divide_le_eq_1_pos)
  have dne: "(of_nat d :: rat) \<noteq> 0" using assms(1) by simp
  have "s = 1 \<longleftrightarrow> (of_nat d :: rat) \<noteq> 0 \<and> (of_nat (2 * n) :: rat) = of_nat d"
    unfolding s_def num by (rule divide_eq_1_iff)
  then have "s = 1 \<longleftrightarrow> (of_nat (2 * n) :: rat) = of_nat d" using dne by blast
  then show "s = 1 \<longleftrightarrow> 2 * n = d" by (simp only: of_nat_eq_iff)
  show "s = 0 \<longleftrightarrow> n = 0" unfolding s_def using assms(1) by simp
qed

text \<open>
  Claim C7. For finite q-gram sets \<open>A\<close> and \<open>B\<close>, \<^verbatim>\<open>q_gram_dice_sim\<close> raises exactly
  when both are empty, and then it is the division by zero; otherwise it returns
  \<open>2\<cdot>|A\<inter>B| / (|A|+|B|)\<close>, which lies in \<open>[0,1]\<close>, is \<open>1\<close> exactly when \<open>A = B\<close> and is \<open>0\<close>
  exactly when \<open>A\<close> and \<open>B\<close> are disjoint. The function is pure: its result is all it does.
\<close>

theorem q_gram_dice_sim_correct:
  assumes "finite A" "finite B"
  shows "(\<forall>e. q_gram_dice_sim A B = Inl e \<longleftrightarrow> e = ZeroDivisionError \<and> A = {} \<and> B = {}) \<and>
    (\<not> (A = {} \<and> B = {}) \<longrightarrow>
       (\<exists>s. q_gram_dice_sim A B = Inr s
          \<and> s = 2 * of_nat (card (A \<inter> B)) / of_nat (card A + card B)
          \<and> 0 \<le> s \<and> s \<le> 1
          \<and> (s = 1 \<longleftrightarrow> A = B)
          \<and> (s = 0 \<longleftrightarrow> A \<inter> B = {})))"
proof (cases "A = {} \<and> B = {}")
  case True
  then show ?thesis by (auto simp add: q_gram_dice_sim_def)
next
  case False
  define s :: rat where "s = 2 * of_nat (card (A \<inter> B)) / of_nat (card A + card B)"
  have pos: "0 < card A + card B" using assms False by (auto simp add: card_gt_0_iff)
  note q = dice_quotient[OF pos dice_num_le[OF assms], folded s_def]
  have nz: "card A + card B \<noteq> 0" using pos by simp
  have val: "q_gram_dice_sim A B = Inr s"
    unfolding q_gram_dice_sim_def Let_def using nz q(1,2) unfolding s_def
    by (simp only: if_False if_True simp_thms)
  have one: "s = 1 \<longleftrightarrow> A = B" using q(3) dice_num_eq[OF assms] by simp
  have zero: "s = 0 \<longleftrightarrow> A \<inter> B = {}" using q(4) assms by simp
  have nofail: "\<forall>e. q_gram_dice_sim A B = Inl e \<longleftrightarrow> e = ZeroDivisionError \<and> A = {} \<and> B = {}"
    using val False by simp
  have ex: "\<exists>s. q_gram_dice_sim A B = Inr s
          \<and> s = 2 * of_nat (card (A \<inter> B)) / of_nat (card A + card B)
          \<and> 0 \<le> s \<and> s \<le> 1 \<and> (s = 1 \<longleftrightarrow> A = B) \<and> (s = 0 \<longleftrightarrow> A \<inter> B = {})"
  proof (intro exI[of _ s] conjI)
    show "q_gram_dice_sim A B = Inr s" by (rule val)
    show "s = 2 * of_nat (card (A \<inter> B)) / of_nat (card A + card B)" by (rule s_def)
    show "0 \<le> s" by (rule q(1))
    show "s \<le> 1" by (rule q(2))
    show "s = 1 \<longleftrightarrow> A = B" by (rule one)
    show "s = 0 \<longleftrightarrow> A \<inter> B = {}" by (rule zero)
  qed
  show ?thesis
  proof (intro conjI impI)
    show "\<forall>e. q_gram_dice_sim A B = Inl e \<longleftrightarrow> e = ZeroDivisionError \<and> A = {} \<and> B = {}"
      by (rule nofail)
    show "\<exists>s. q_gram_dice_sim A B = Inr s
          \<and> s = 2 * of_nat (card (A \<inter> B)) / of_nat (card A + card B)
          \<and> 0 \<le> s \<and> s \<le> 1 \<and> (s = 1 \<longleftrightarrow> A = B) \<and> (s = 0 \<longleftrightarrow> A \<inter> B = {})"
      by (rule ex)
  qed
qed

lemma example_sets_finite: "finite {''th'',''er'',''xy''}" "finite {''he'',''er'',''re''}" by simp_all
lemma example_sets_nonempty: "\<not> ({''th'',''er'',''xy''} = ({}::string set) \<and> {''he'',''er'',''re''} = ({}::string set))" by simp
lemma example_dice_quotient: "(2 * of_nat (card ({''th'',''er'',''xy''} \<inter> {''he'',''er'',''re''})) / of_nat (card {''th'',''er'',''xy''} + card {''he'',''er'',''re''}) :: rat) = 1/3" by simp

theorem q_gram_dice_sim_correct_witness:
  "finite {''th'',''er'',''xy''} \<and> finite {''he'',''er'',''re''} \<and>
   q_gram_dice_sim {''th'',''er'',''xy''} {''he'',''er'',''re''} = Inr (1/3)"
proof -
  have imp: "\<not> ({''th'',''er'',''xy''} = ({}::string set) \<and> {''he'',''er'',''re''} = ({}::string set)) \<longrightarrow>
     (\<exists>s. q_gram_dice_sim {''th'',''er'',''xy''} {''he'',''er'',''re''} = Inr s
          \<and> s = 2 * of_nat (card ({''th'',''er'',''xy''} \<inter> {''he'',''er'',''re''})) / of_nat (card {''th'',''er'',''xy''} + card {''he'',''er'',''re''})
          \<and> 0 \<le> s \<and> s \<le> 1
          \<and> (s = 1 \<longleftrightarrow> {''th'',''er'',''xy''} = {''he'',''er'',''re''})
          \<and> (s = 0 \<longleftrightarrow> {''th'',''er'',''xy''} \<inter> {''he'',''er'',''re''} = {}))"
    by (rule conjunct2[OF q_gram_dice_sim_correct[OF example_sets_finite]])
  from imp example_sets_nonempty obtain s where
    s: "q_gram_dice_sim {''th'',''er'',''xy''} {''he'',''er'',''re''} = Inr s"
       "s = 2 * of_nat (card ({''th'',''er'',''xy''} \<inter> {''he'',''er'',''re''})) / of_nat (card {''th'',''er'',''xy''} + card {''he'',''er'',''re''})"
    by (elim impE exE conjE)
  from s(2) have "s = 1/3" by (simp only: example_dice_quotient)
  with s(1) example_sets_finite show ?thesis by simp
qed

subsection \<open>Concrete runs\<close>

lemma str_nat_digit: "n < 10 \<Longrightarrow> str_nat n = [digit_char n]"
  by (simp add: str_nat.simps)

lemma str_nat_4: "str_nat 4 = ''4''"
  by (simp add: str_nat_digit digit_char_def)

lemma iter_ok_sorted_list_of_set: "iter_ok sorted_list_of_set"
  by (simp add: iter_ok_def)

lemma pyrandom_ok_counter_rng: "pyrandom_ok counter_rng"
proof -
  have "a + int g mod (b - a + 1) \<le> b" if "a \<le> b" for a b :: int and g :: nat
  proof -
    have "int g mod (b - a + 1) < b - a + 1" using that by (intro pos_mod_bound) simp
    then show ?thesis by simp
  qed
  then show ?thesis by (auto simp add: pyrandom_ok_def counter_rng_def)
qed

text \<open>
  Claim C3. The hardened output does not depend on the state the generator is in when
  \<^verbatim>\<open>harden_with_vah_ref_sets\<close> is called: the method reseeds it from the secret seed, so
  the result is a function of the seed, the table and the other inputs alone (the
  enumeration of the sets being fixed). The same holds of \<^verbatim>\<open>generate_reference_sets\<close>,
  which builds the table.
\<close>

theorem harden_with_vah_ref_sets_deterministic:
  "harden_with_vah_ref_sets R iter self data_dict q_gram_f_dist g1 =
     harden_with_vah_ref_sets R iter self data_dict q_gram_f_dist g2
   \<and> generate_reference_sets R iter self pub_db_q_gram_sets g1 =
     generate_reference_sets R iter self pub_db_q_gram_sets g2"
  by (simp add: harden_with_vah_ref_sets_def generate_reference_sets_def)

text \<open>
  Claim C5, evaluated where it fails. The public database has one record, whose only
  q-gram is the vulnerable \<open>th\<close>: the pool of \<open>th\<close> is empty, the loop over its chunks
  has no round, and \<^verbatim>\<open>generate_reference_sets\<close> returns a table in which \<open>th\<close> has no
  reference set. Hardening a record that contains \<open>th\<close> then raises IndexError at
  \<^verbatim>\<open>sorted_items[0]\<close>.
\<close>

theorem empty_pool_has_no_reference_set:
  "generate_reference_sets counter_rng sorted_list_of_set
      (VAH_init 7 {''th''} [] 3) [(''p1'', {''th''})] 0
     = Some (Inr ((VAH_init 7 {''th''} [] 3)\<lparr>indexed_ref_sets := Some [(''th'', [])]\<rparr>, 7))
   \<and> harden_with_vah_ref_sets counter_rng sorted_list_of_set
        ((VAH_init 7 {''th''} [] 3)\<lparr>indexed_ref_sets := Some [(''th'', [])]\<rparr>)
        [(''s1'', {''th'', ''he''})] [(''th'', 1), (''he'', 1)] 0
     = Inl IndexError"
  by (simp add: generate_reference_sets_def build_reference_sets_def co_occurrence_pools_def
      VAH_init_def ref_sets_for_pool_def py_range_step_def index_reference_sets_def
      sample_range_def counter_rng_def harden_with_vah_ref_sets_def harden_q_gram_def
      select_qualifier_def)

text \<open>
  Claim C10, evaluated where it fails. With the frequencies \<open>aa: 1\<close>, \<open>bb: 2\<close>, \<open>cc: 3\<close> and
  one vulnerable q-gram asked for, the vulnerable list is \<open>[cc]\<close>, and the list returned
  as non-vulnerable is \<open>[bb, cc]\<close>: the slice \<^verbatim>\<open>sorted_q_grams[vuln_q_gram_count:]\<close> drops
  the least frequent q-grams and keeps the vulnerable one.
\<close>

theorem non_vuln_q_grams_contain_vulnerable:
  "get_q_grams_to_be_hardened [(''aa'', 1), (''bb'', 2), (''cc'', 3)] 1 = ([''cc''], [''bb'', ''cc''])
   \<and> set (fst (get_q_grams_to_be_hardened [(''aa'', 1), (''bb'', 2), (''cc'', 3)] 1))
       \<inter> set (snd (get_q_grams_to_be_hardened [(''aa'', 1), (''bb'', 2), (''cc'', 3)] 1)) = {''cc''}"
  by (simp add: get_q_grams_to_be_hardened_def py_slice_from_def)

subsection \<open>The choice of the qualifier\<close>

lemma sim_scores_loop_rel:
  "sim_scores_loop qs refs = Inr scores \<Longrightarrow>
     list_all2 (\<lambda>ref sc. fst sc = fst ref \<and> q_gram_dice_sim qs (snd ref) = Inr (snd sc)) refs scores"
proof (induction refs arbitrary: scores)
  case Nil
  then show ?case by simp
next
  case (Cons ref refs)
  obtain ref_id ref_set where ref: "ref = (ref_id, ref_set)" by (cases ref)
  from Cons.prems obtain sim rest where
    sim: "q_gram_dice_sim qs ref_set = Inr sim" and
    rest: "sim_scores_loop qs refs = Inr rest" and
    scores: "scores = (ref_id, sim) # rest"
    unfolding ref by (auto split: sum.splits)
  from Cons.IH[OF rest] sim show ?case unfolding ref scores by simp
qed

lemma takeWhile_least_key:
  fixes f :: "'a \<Rightarrow> 'b::linorder"
  shows "sorted (map f ys) \<Longrightarrow> \<forall>y\<in>set ys. k \<le> f y \<Longrightarrow>
     takeWhile (\<lambda>y. f y = k) ys = filter (\<lambda>y. f y = k) ys"
proof (induction ys)
  case Nil
  then show ?case by simp
next
  case (Cons y ys)
  show ?case
  proof (cases "f y = k")
    case True
    with Cons show ?thesis by simp
  next
    case False
    with Cons.prems have "k < f y" by auto
    moreover from Cons.prems have "\<forall>z\<in>set ys. f y \<le> f z" by simp
    ultimately have "\<forall>z\<in>set ys. f z \<noteq> k" by auto
    then have "filter (\<lambda>y. f y = k) ys = []" by (simp add: filter_empty_conv)
    with False show ?thesis by simp
  qed
qed

lemma select_qualifier_maximum:
  assumes sel: "select_qualifier R sim_scores g = Inr (qualifier, g')"
  shows "\<exists>m. (\<forall>item\<in>set sim_scores. snd item \<le> m)
           \<and> map fst (filter (\<lambda>item. snd item = m) sim_scores) \<noteq> []
           \<and> qualifier = map fst (filter (\<lambda>item. snd item = m) sim_scores)
                 ! fst (rng_choice R (length (filter (\<lambda>item. snd item = m) sim_scores)) g)"
proof -
  define ys where "ys = sort_key (\<lambda>item. - snd item) sim_scores"
  from sel have ne: "ys \<noteq> []"
    unfolding select_qualifier_def ys_def by (auto simp add: Let_def split: list.splits)
  then obtain y rest where ys: "ys = y # rest" by (cases ys) auto
  define m where "m = snd y"
  have srt: "sorted (map (\<lambda>item. - snd item) ys)" unfolding ys_def by simp
  then have low: "\<forall>z\<in>set ys. - m \<le> - snd z" unfolding ys m_def by auto
  have set_ys: "set ys = set sim_scores" unfolding ys_def by simp
  have upper: "\<forall>item\<in>set sim_scores. snd item \<le> m" using low set_ys by auto
  have tw: "takeWhile (\<lambda>item. snd item = m) ys = filter (\<lambda>item. snd item = m) sim_scores"
  proof -
    have "takeWhile (\<lambda>item. - snd item = - m) ys = filter (\<lambda>item. - snd item = - m) ys"
      by (rule takeWhile_least_key[OF srt low])
    also have "\<dots> = filter (\<lambda>item. - snd item = - m) sim_scores"
      unfolding ys_def by (rule sort_key_stable)
    finally show ?thesis by simp
  qed
  have "takeWhile (\<lambda>item. snd item = m) ys \<noteq> []" unfolding ys m_def by simp
  then have keys_ne: "map fst (filter (\<lambda>item. snd item = m) sim_scores) \<noteq> []"
    unfolding tw by simp
  from sel have "choice R (map fst (takeWhile (\<lambda>item. snd item = m) ys)) g = Inr (qualifier, g')"
    unfolding select_qualifier_def ys_def[symmetric] ys m_def by (simp add: Let_def)
  then have "choice R (map fst (filter (\<lambda>item. snd item = m) sim_scores)) g = Inr (qualifier, g')"
    unfolding tw .
  with keys_ne have "qualifier = map fst (filter (\<lambda>item. snd item = m) sim_scores)
                 ! fst (rng_choice R (length (filter (\<lambda>item. snd item = m) sim_scores)) g)"
    unfolding choice_def by (auto split: prod.splits)
  with upper keys_ne show ?thesis by blast
qed

lemma scores_filter_refs:
  "list_all2 (\<lambda>ref sc. fst sc = fst ref \<and> q_gram_dice_sim qs (snd ref) = Inr (snd sc)) refs scores \<Longrightarrow>
     map fst (filter (\<lambda>sc. snd sc = m) scores)
       = map fst (filter (\<lambda>ref. q_gram_dice_sim qs (snd ref) = Inr m) refs)"
  by (induction rule: list_all2_induct) auto

lemma scores_cover_refs:
  assumes "list_all2 (\<lambda>ref sc. fst sc = fst ref \<and> q_gram_dice_sim qs (snd ref) = Inr (snd sc)) refs scores"
    and "ref \<in> set refs"
  shows "\<exists>sc\<in>set scores. q_gram_dice_sim qs (snd ref) = Inr (snd sc)"
  using assms by (induction rule: list_all2_induct) auto

lemma update_f_dist_returns:
  assumes "map_of q_gram_f_dist q_v = Some c"
  shows "\<exists>d. update_f_dist q_v replacement q_gram_f_dist = Inr d"
  using assms unfolding update_f_dist_def
  by (auto simp add: Let_def update_conv' split: option.splits)

subsection \<open>The frequency distribution\<close>

lemma sum_list_update:
  "sum_list (map snd (AList.update k v al))
     = sum_list (map snd al) - (case map_of al k of None \<Rightarrow> 0 | Some c \<Rightarrow> c) + (v::int)"
  by (induction al) auto

lemma sum_list_delete:
  "distinct (map fst al) \<Longrightarrow>
     sum_list (map snd (AList.delete k al))
       = sum_list (map snd al) - (case map_of al k of None \<Rightarrow> 0 | Some c \<Rightarrow> (c::int))"
proof (induction al)
  case Nil
  then show ?case by simp
next
  case (Cons p al)
  obtain k' v' where p: "p = (k', v')" by (cases p)
  show ?case
  proof (cases "k' = k")
    case True
    with Cons.prems p have "k \<notin> fst ` set al" by simp
    then have "AList.delete k al = al" by (simp add: delete_id image_iff)
    moreover from \<open>k \<notin> fst ` set al\<close> have "map_of al k = None" by (simp add: map_of_eq_None_iff)
    ultimately show ?thesis using True p by simp
  next
    case False
    with Cons p show ?thesis by simp
  qed
qed

lemma update_f_dist_Inr:
  assumes "update_f_dist q_v replacement fd = Inr d"
  obtains c d2 r where
    "map_of fd q_v = Some c"
    "d2 = (if c - 1 = 0 then AList.delete q_v (AList.update q_v (c - 1) fd)
           else AList.update q_v (c - 1) fd)"
    "map_of (if map_of d2 replacement = None then AList.update replacement 0 d2 else d2) replacement
       = Some r"
    "d = AList.update replacement (r + 1)
           (if map_of d2 replacement = None then AList.update replacement 0 d2 else d2)"
  using assms unfolding update_f_dist_def
  by (auto simp add: Let_def split: option.splits)

lemma update_f_dist_total:
  assumes dist: "distinct (map fst fd)" and run: "update_f_dist q_v replacement fd = Inr d"
  shows "f_dist_total d = f_dist_total fd" and "distinct (map fst d)"
proof -
  from run obtain c d2 r where
    c: "map_of fd q_v = Some c" and
    d2: "d2 = (if c - 1 = 0 then AList.delete q_v (AList.update q_v (c - 1) fd)
               else AList.update q_v (c - 1) fd)" and
    r: "map_of (if map_of d2 replacement = None then AList.update replacement 0 d2 else d2) replacement
          = Some r" and
    d: "d = AList.update replacement (r + 1)
              (if map_of d2 replacement = None then AList.update replacement 0 d2 else d2)"
    by (rule update_f_dist_Inr)
  define d1 where "d1 = AList.update q_v (c - 1) fd"
  define d3 where "d3 = (if map_of d2 replacement = None then AList.update replacement 0 d2 else d2)"
  have dist1: "distinct (map fst d1)" unfolding d1_def using dist by (rule distinct_update)
  have sum1: "sum_list (map snd d1) = sum_list (map snd fd) - 1"
    unfolding d1_def by (simp add: sum_list_update c)
  have look1: "map_of d1 q_v = Some (c - 1)" unfolding d1_def by (simp add: update_conv')
  have dist2: "distinct (map fst d2)"
    unfolding d2 d1_def[symmetric] using dist1 by (simp add: distinct_delete)
  have sum2: "sum_list (map snd d2) = sum_list (map snd fd) - 1"
    unfolding d2 d1_def[symmetric] using sum1 look1 by (simp add: sum_list_delete[OF dist1])
  have dist3: "distinct (map fst d3)"
    unfolding d3_def using dist2 by (simp add: distinct_update)
  have sum3: "sum_list (map snd d3) = sum_list (map snd fd) - 1"
    unfolding d3_def using sum2 by (simp add: sum_list_update)
  have look3: "map_of d3 replacement = Some r" using r unfolding d3_def .
  have dd: "d = AList.update replacement (r + 1) d3" using d unfolding d3_def .
  show "distinct (map fst d)" unfolding dd using dist3 by (rule distinct_update)
  show "f_dist_total d = f_dist_total fd"
    unfolding f_dist_total_def dd by (simp add: sum_list_update look3 sum3)
qed

lemma update_f_dist_entries:
  assumes run: "update_f_dist q_v replacement fd = Inr d" and ne: "q_v \<noteq> replacement"
  shows "\<exists>c. map_of fd q_v = Some c \<and> map_of d q_v = (if c = 1 then None else Some (c - 1))"
    and "map_of d replacement
           = Some ((case map_of fd replacement of None \<Rightarrow> 0 | Some r \<Rightarrow> r) + 1)"
    and "\<forall>k. k \<noteq> q_v \<longrightarrow> k \<noteq> replacement \<longrightarrow> map_of d k = map_of fd k"
proof -
  from run obtain c d2 r where
    c: "map_of fd q_v = Some c" and
    d2: "d2 = (if c - 1 = 0 then AList.delete q_v (AList.update q_v (c - 1) fd)
               else AList.update q_v (c - 1) fd)" and
    r: "map_of (if map_of d2 replacement = None then AList.update replacement 0 d2 else d2) replacement
          = Some r" and
    d: "d = AList.update replacement (r + 1)
              (if map_of d2 replacement = None then AList.update replacement 0 d2 else d2)"
    by (rule update_f_dist_Inr)
  define d3 where "d3 = (if map_of d2 replacement = None then AList.update replacement 0 d2 else d2)"
  have m2: "map_of d2 = (if c - 1 = 0 then (map_of fd)(q_v := None) else (map_of fd)(q_v \<mapsto> c - 1))"
    unfolding d2 by (simp add: update_conv' delete_conv')
  have m2r: "map_of d2 replacement = map_of fd replacement"
    unfolding m2 using ne by simp
  have m3: "map_of d3 = (if map_of fd replacement = None then (map_of d2)(replacement \<mapsto> 0) else map_of d2)"
    unfolding d3_def m2r by (simp add: update_conv')
  have rv: "r = (case map_of fd replacement of None \<Rightarrow> 0 | Some r \<Rightarrow> r)"
    using r unfolding d3_def[symmetric] m3 using m2r by (auto split: option.splits if_splits)
  have md: "map_of d = (map_of d3)(replacement \<mapsto> r + 1)"
    using d unfolding d3_def[symmetric] by (simp add: update_conv')
  have q: "map_of d q_v = (if c = 1 then None else Some (c - 1))"
    unfolding md m3 m2 using ne by simp
  show "\<exists>c. map_of fd q_v = Some c \<and> map_of d q_v = (if c = 1 then None else Some (c - 1))"
    using c q by blast
  show "map_of d replacement
           = Some ((case map_of fd replacement of None \<Rightarrow> 0 | Some r \<Rightarrow> r) + 1)"
    unfolding md rv by simp
  show "\<forall>k. k \<noteq> q_v \<longrightarrow> k \<noteq> replacement \<longrightarrow> map_of d k = map_of fd k"
    unfolding md m3 m2 by simp
qed

subsection \<open>The hardening pass\<close>

lemma harden_q_gram_cases:
  assumes "harden_q_gram R table q_v (qs, fd, g) = Inr (qs', fd', g')"
  obtains tbl refs scores qualifier where
    "table = Some tbl"
    "map_of tbl q_v = Some refs"
    "sim_scores_loop qs refs = Inr scores"
    "select_qualifier R scores g = Inr (qualifier, g')"
    "q_v \<in> qs"
    "update_f_dist q_v (q_v @ str_nat qualifier) fd = Inr fd'"
    "qs' = insert (q_v @ str_nat qualifier) (qs - {q_v})"
  using assms unfolding harden_q_gram_def
  by (auto simp add: Let_def split: option.splits sum.splits if_splits prod.splits)

lemma harden_q_gram_total:
  assumes "distinct (map fst fd)"
    and "harden_q_gram R table q_v (qs, fd, g) = Inr (qs', fd', g')"
  shows "f_dist_total fd' = f_dist_total fd \<and> distinct (map fst fd')"
proof -
  from assms(2) obtain qualifier where
    "update_f_dist q_v (q_v @ str_nat qualifier) fd = Inr fd'"
    by (rule harden_q_gram_cases)
  with assms(1) show ?thesis by (simp add: update_f_dist_total)
qed

lemma harden_q_grams_total:
  "distinct (map fst fd) \<Longrightarrow> harden_q_grams R table vs (qs, fd, g) = Inr (qs', fd', g') \<Longrightarrow>
     f_dist_total fd' = f_dist_total fd \<and> distinct (map fst fd')"
proof (induction vs arbitrary: qs fd g)
  case Nil
  then show ?case by simp
next
  case (Cons q_v vs)
  from Cons.prems(2) obtain qs1 fd1 g1 where
    step: "harden_q_gram R table q_v (qs, fd, g) = Inr (qs1, fd1, g1)" and
    rest: "harden_q_grams R table vs (qs1, fd1, g1) = Inr (qs', fd', g')"
    by (auto split: sum.splits)
  from harden_q_gram_total[OF Cons.prems(1) step]
  have 1: "f_dist_total fd1 = f_dist_total fd" and d1: "distinct (map fst fd1)" by simp_all
  from Cons.IH[OF d1 rest] 1 show ?case by simp
qed

lemma harden_records_total:
  "distinct (map fst fd) \<Longrightarrow>
   harden_records R iter Qv table data (fd, g) = Inr (hardened, fd', g') \<Longrightarrow>
     f_dist_total fd' = f_dist_total fd"
proof (induction data arbitrary: fd g hardened)
  case Nil
  then show ?case by simp
next
  case (Cons rec data)
  obtain rec_id qs where rec: "rec = (rec_id, qs)" by (cases rec)
  show ?case
  proof (cases "card (qs \<inter> Qv) > 0")
    case True
    with Cons.prems(2) obtain qs1 fd1 g1 hardened1 where
      step: "harden_q_grams R table (iter (qs \<inter> Qv)) (qs, fd, g) = Inr (qs1, fd1, g1)" and
      rest: "harden_records R iter Qv table data (fd1, g1) = Inr (hardened1, fd', g')"
      unfolding rec by (auto simp add: Let_def split: sum.splits)
    from harden_q_grams_total[OF Cons.prems(1) step]
    have 1: "f_dist_total fd1 = f_dist_total fd" and d1: "distinct (map fst fd1)" by simp_all
    from Cons.IH[OF d1 rest] 1 show ?thesis by simp
  next
    case False
    with Cons.prems(2) obtain hardened1 where
      rest: "harden_records R iter Qv table data (fd, g) = Inr (hardened1, fd', g')"
      unfolding rec by (auto simp add: Let_def split: sum.splits)
    from Cons.IH[OF Cons.prems(1) rest] show ?thesis .
  qed
qed

subsection \<open>Coverage\<close>

lemma str_nat_nonempty: "str_nat n \<noteq> []"
  by (subst str_nat.simps) simp

lemma qualified_token_longer:
  "tok \<in> qualified_tokens table q_v \<Longrightarrow> length q_v < length tok"
  unfolding qualified_tokens_def
  by (auto simp add: str_nat_nonempty split: option.splits)

lemma sim_scores_loop_keys:
  "list_all2 (\<lambda>ref sc. fst sc = fst ref \<and> q_gram_dice_sim qs (snd ref) = Inr (snd sc)) refs scores \<Longrightarrow>
     map fst scores = map fst refs"
  by (induction rule: list_all2_induct) auto

lemma select_qualifier_in_keys:
  assumes ok: "pyrandom_ok R" and sel: "select_qualifier R scores g = Inr (qualifier, g')"
  shows "qualifier \<in> fst ` set scores"
proof -
  from select_qualifier_maximum[OF sel] obtain m where
    ne: "map fst (filter (\<lambda>item. snd item = m) scores) \<noteq> []" and
    q: "qualifier = map fst (filter (\<lambda>item. snd item = m) scores)
          ! fst (rng_choice R (length (filter (\<lambda>item. snd item = m) scores)) g)"
    by blast
  define cands where "cands = filter (\<lambda>item. snd item = m) scores"
  have cne: "0 < length cands" using ne unfolding cands_def by simp
  then have k: "fst (rng_choice R (length cands) g) < length cands"
    using ok unfolding pyrandom_ok_def by simp
  have "qualifier = fst (cands ! fst (rng_choice R (length cands) g))"
    using q k unfolding cands_def by simp
  moreover have "cands ! fst (rng_choice R (length cands) g) \<in> set cands"
    using k by simp
  moreover have "set cands \<subseteq> set scores" unfolding cands_def by auto
  ultimately show ?thesis by blast
qed

lemma harden_q_gram_token:
  assumes ok: "pyrandom_ok R"
    and run: "harden_q_gram R table q_v (qs, fd, g) = Inr (qs', fd', g')"
  shows "\<exists>tok\<in>qualified_tokens table q_v. qs' = insert tok (qs - {q_v})"
proof -
  from run obtain tbl refs scores qualifier where
    t: "table = Some tbl" and
    refs: "map_of tbl q_v = Some refs" and
    sc: "sim_scores_loop qs refs = Inr scores" and
    sel: "select_qualifier R scores g = Inr (qualifier, g')" and
    qs': "qs' = insert (q_v @ str_nat qualifier) (qs - {q_v})"
    by (rule harden_q_gram_cases)
  have "qualifier \<in> fst ` set scores" by (rule select_qualifier_in_keys[OF ok sel])
  also have "fst ` set scores = set (map fst scores)" by simp
  also have "\<dots> = set (map fst refs)"
    using sim_scores_loop_keys[OF sim_scores_loop_rel[OF sc]] by simp
  finally have "qualifier \<in> fst ` set refs" by simp
  then have "q_v @ str_nat qualifier \<in> qualified_tokens table q_v"
    unfolding qualified_tokens_def t by (simp add: refs)
  with qs' show ?thesis by blast
qed

lemma harden_q_grams_sets:
  assumes ok: "pyrandom_ok R"
  shows "harden_q_grams R table vs (qs, fd, g) = Inr (qs', fd', g') \<Longrightarrow>
     \<forall>q\<in>set vs. length q = n \<Longrightarrow>
       qs - set vs \<subseteq> qs'
     \<and> qs' \<subseteq> (qs - set vs) \<union> (\<Union>q_v\<in>set vs. qualified_tokens table q_v)
     \<and> (\<forall>q_v\<in>set vs. qs' \<inter> qualified_tokens table q_v \<noteq> {})"
proof (induction vs arbitrary: qs fd g)
  case Nil
  then show ?case by simp
next
  case (Cons q_v vs)
  from Cons.prems(1) obtain qs1 fd1 g1 where
    step: "harden_q_gram R table q_v (qs, fd, g) = Inr (qs1, fd1, g1)" and
    rest: "harden_q_grams R table vs (qs1, fd1, g1) = Inr (qs', fd', g')"
    by (auto split: sum.splits)
  from harden_q_gram_token[OF ok step] obtain tok where
    tok: "tok \<in> qualified_tokens table q_v" and qs1: "qs1 = insert tok (qs - {q_v})"
    by blast
  from Cons.prems(2) have lens: "\<forall>q\<in>set vs. length q = n" and lq: "length q_v = n" by simp_all
  from qualified_token_longer[OF tok] lq have "n < length tok" by simp
  with lens have tok_notin: "tok \<notin> set vs" by auto
  from Cons.IH[OF rest lens] have
    a: "qs1 - set vs \<subseteq> qs'" and
    b: "qs' \<subseteq> (qs1 - set vs) \<union> (\<Union>q_v\<in>set vs. qualified_tokens table q_v)" and
    c: "\<forall>q\<in>set vs. qs' \<inter> qualified_tokens table q \<noteq> {}"
    by simp_all
  have 1: "qs - set (q_v # vs) \<subseteq> qs'" using a unfolding qs1 by auto
  have 2: "qs' \<subseteq> (qs - set (q_v # vs)) \<union> (\<Union>q\<in>set (q_v # vs). qualified_tokens table q)"
    using b tok unfolding qs1 by auto
  have "tok \<in> qs'" using a tok_notin unfolding qs1 by auto
  with tok have "qs' \<inter> qualified_tokens table q_v \<noteq> {}" by blast
  with c have 3: "\<forall>q\<in>set (q_v # vs). qs' \<inter> qualified_tokens table q \<noteq> {}" by simp
  from 1 2 3 show ?case by blast
qed

lemma harden_records_coverage:
  assumes ok: "pyrandom_ok R" and it: "iter_ok iter" and fin: "finite Qv"
    and len: "\<forall>q\<in>Qv. length q = n"
  shows "harden_records R iter Qv table data (fd, g) = Inr (hardened, fd', g') \<Longrightarrow>
     list_all2 (\<lambda>rec rec'.
         fst rec' = fst rec
       \<and> snd rec' \<inter> Qv = {}
       \<and> snd rec - Qv \<subseteq> snd rec'
       \<and> snd rec' \<subseteq> (snd rec - Qv) \<union> (\<Union>q_v\<in>snd rec \<inter> Qv. qualified_tokens table q_v)
       \<and> (\<forall>q_v\<in>snd rec \<inter> Qv. snd rec' \<inter> qualified_tokens table q_v \<noteq> {}))
       data hardened"
proof (induction data arbitrary: fd g hardened)
  case Nil
  then show ?case by simp
next
  case (Cons rec data)
  obtain rec_id qs where rec: "rec = (rec_id, qs)" by (cases rec)
  have finv: "finite (qs \<inter> Qv)" using fin by simp
  show ?case
  proof (cases "card (qs \<inter> Qv) > 0")
    case True
    with Cons.prems obtain qs1 fd1 g1 hardened1 where
      step: "harden_q_grams R table (iter (qs \<inter> Qv)) (qs, fd, g) = Inr (qs1, fd1, g1)" and
      rest: "harden_records R iter Qv table data (fd1, g1) = Inr (hardened1, fd', g')" and
      h: "hardened = (rec_id, qs1) # hardened1"
      unfolding rec by (auto simp add: Let_def split: sum.splits)
    have vs: "set (iter (qs \<inter> Qv)) = qs \<inter> Qv"
      using it finv unfolding iter_ok_def by blast
    have lens: "\<forall>q\<in>set (iter (qs \<inter> Qv)). length q = n" unfolding vs using len by blast
    from harden_q_grams_sets[OF ok step lens] have
      a: "qs - Qv \<subseteq> qs1" and
      b: "qs1 \<subseteq> (qs - Qv) \<union> (\<Union>q_v\<in>qs \<inter> Qv. qualified_tokens table q_v)" and
      c: "\<forall>q_v\<in>qs \<inter> Qv. qs1 \<inter> qualified_tokens table q_v \<noteq> {}"
      unfolding vs by auto
    have d: "qs1 \<inter> Qv = {}"
    proof (rule ccontr)
      assume "qs1 \<inter> Qv \<noteq> {}"
      then obtain x where x1: "x \<in> qs1" and xv: "x \<in> Qv" by blast
      with b obtain q_v where qv: "q_v \<in> Qv" and tok: "x \<in> qualified_tokens table q_v" by blast
      from qualified_token_longer[OF tok] len qv xv show False by auto
    qed
    from Cons.IH[OF rest] a b c d show ?thesis unfolding rec h by simp
  next
    case False
    then have empty: "qs \<inter> Qv = {}" using finv by simp
    from False Cons.prems obtain hardened1 where
      rest: "harden_records R iter Qv table data (fd, g) = Inr (hardened1, fd', g')" and
      h: "hardened = (rec_id, qs) # hardened1"
      unfolding rec by (auto simp add: Let_def split: sum.splits)
    from Cons.IH[OF rest] empty show ?thesis unfolding rec h by auto
  qed
qed

text \<open>
  Claim C1. After a run of \<^verbatim>\<open>harden_with_vah_ref_sets\<close> that returns, no record's q-gram
  set contains a vulnerable q-gram. Record by record, in the order of the database: the
  identifier is kept, the q-grams that are not vulnerable stay, every vulnerable q-gram
  that was present is gone and one of its qualified tokens (the q-gram followed by an
  index of the table) is present, and nothing else has come in. The q-grams of the
  vulnerable set are strings of one length \<open>n\<close>, as q-grams are; the generator and the
  enumeration of the sets meet their contracts.
\<close>

theorem harden_removes_vulnerable_q_grams:
  assumes "pyrandom_ok R" and "iter_ok iter"
    and "finite (vuln_q_grams self)"
    and "\<forall>q\<in>vuln_q_grams self. length q = n"
    and "harden_with_vah_ref_sets R iter self data_dict q_gram_f_dist g0
           = Inr (hardened, q_gram_f_dist', g')"
  shows "(\<forall>rec'\<in>set hardened. snd rec' \<inter> vuln_q_grams self = {})
     \<and> list_all2 (\<lambda>rec rec'.
         fst rec' = fst rec
       \<and> snd rec - vuln_q_grams self \<subseteq> snd rec'
       \<and> snd rec' \<subseteq> (snd rec - vuln_q_grams self)
             \<union> (\<Union>q_v\<in>snd rec \<inter> vuln_q_grams self. qualified_tokens (indexed_ref_sets self) q_v)
       \<and> (\<forall>q_v\<in>snd rec \<inter> vuln_q_grams self.
             snd rec' \<inter> qualified_tokens (indexed_ref_sets self) q_v \<noteq> {}))
       data_dict hardened"
proof -
  let ?Qv = "vuln_q_grams self"
  let ?table = "indexed_ref_sets self"
  from assms(5) have run: "harden_records R iter ?Qv ?table data_dict
      (q_gram_f_dist, rng_seed R (secret_seed self)) = Inr (hardened, q_gram_f_dist', g')"
    unfolding harden_with_vah_ref_sets_def .
  note cov = harden_records_coverage[OF assms(1-4) run]
  have 1: "\<forall>rec'\<in>set hardened. snd rec' \<inter> ?Qv = {}"
  proof
    fix rec' assume "rec' \<in> set hardened"
    then obtain i where i: "i < length hardened" and r: "rec' = hardened ! i"
      by (auto simp add: in_set_conv_nth)
    from list_all2_nthD2[OF cov i] r show "snd rec' \<inter> ?Qv = {}" by simp
  qed
  have 2: "list_all2 (\<lambda>rec rec'.
         fst rec' = fst rec
       \<and> snd rec - ?Qv \<subseteq> snd rec'
       \<and> snd rec' \<subseteq> (snd rec - ?Qv) \<union> (\<Union>q_v\<in>snd rec \<inter> ?Qv. qualified_tokens ?table q_v)
       \<and> (\<forall>q_v\<in>snd rec \<inter> ?Qv. snd rec' \<inter> qualified_tokens ?table q_v \<noteq> {}))
       data_dict hardened"
    by (rule list_all2_mono[OF cov]) simp
  from 1 2 show ?thesis by (rule conjI)
qed

lemma example_harden_run:
  "harden_with_vah_ref_sets counter_rng sorted_list_of_set
        \<lparr>secret_seed = 0, vuln_q_grams = {''th''}, non_vuln_q_grams = [], l_r = 3,
         indexed_ref_sets =
           Some [(''th'', [(4, {''he'', ''er'', ''re''}), (9, {''in'', ''qu'', ''zx''})])]\<rparr>
        [(''s1'', {''th'', ''er'', ''xy''})] [(''th'', 1), (''er'', 1), (''xy'', 1)] 5
       = Inr ([(''s1'', {''th4'', ''er'', ''xy''})], [(''er'', 1), (''xy'', 1), (''th4'', 1)], 1)"
proof -
  have step: "harden_q_gram counter_rng
        (Some [(''th'', [(4, {''he'', ''er'', ''re''}), (9, {''in'', ''qu'', ''zx''})])])
        ''th'' ({''th'', ''er'', ''xy''}, [(''th'', 1), (''er'', 1), (''xy'', 1)], 0)
       = Inr ({''th4'', ''er'', ''xy''}, [(''er'', 1), (''xy'', 1), (''th4'', 1)], 1)"
    by (auto simp add: harden_q_gram_def q_gram_dice_sim_def select_qualifier_def choice_def
        counter_rng_def str_nat_4 update_f_dist_def Let_def)
  have seed: "rng_seed counter_rng 0 = 0" by (simp add: counter_rng_def)
  have inter: "{''th'', ''er'', ''xy''} \<inter> {''th''} = {''th''}" by auto
  show ?thesis
    unfolding harden_with_vah_ref_sets_def by (simp add: seed inter step)
qed

theorem harden_removes_vulnerable_q_grams_witness:
  "pyrandom_ok counter_rng \<and> iter_ok sorted_list_of_set
   \<and> finite {''th''} \<and> length ''th'' = 2
   \<and> harden_with_vah_ref_sets counter_rng sorted_list_of_set
        \<lparr>secret_seed = 0, vuln_q_grams = {''th''}, non_vuln_q_grams = [], l_r = 3,
         indexed_ref_sets =
           Some [(''th'', [(4, {''he'', ''er'', ''re''}), (9, {''in'', ''qu'', ''zx''})])]\<rparr>
        [(''s1'', {''th'', ''er'', ''xy''})] [(''th'', 1), (''er'', 1), (''xy'', 1)] 5
       = Inr ([(''s1'', {''th4'', ''er'', ''xy''})], [(''er'', 1), (''xy'', 1), (''th4'', 1)], 1)
   \<and> {''th4'', ''er'', ''xy''} \<inter> {''th''} = {}"
proof -
  let ?self = "\<lparr>secret_seed = 0, vuln_q_grams = {''th''}, non_vuln_q_grams = [], l_r = 3,
         indexed_ref_sets =
           Some [(''th'', [(4::nat, {''he'', ''er'', ''re''}), (9, {''in'', ''qu'', ''zx''})])]\<rparr>"
  have fin: "finite (vuln_q_grams ?self)" by simp
  have len: "\<forall>q\<in>vuln_q_grams ?self. length q = 2" by simp
  have sel: "vuln_q_grams ?self = {''th''}" by simp
  note cov = conjunct1[OF harden_removes_vulnerable_q_grams[OF pyrandom_ok_counter_rng
        iter_ok_sorted_list_of_set fin len example_harden_run]]
  have concl: "\<forall>rec'\<in>set [(''s1'', {''th4'', ''er'', ''xy''})]. snd rec' \<inter> {''th''} = {}"
    using cov unfolding sel .
  have mem: "(''s1'', {''th4'', ''er'', ''xy''}) \<in> set [(''s1'', {''th4'', ''er'', ''xy''})]"
    by simp
  have "snd (''s1'', {''th4'', ''er'', ''xy''}) \<inter> {''th''} = {}"
    by (rule bspec[OF concl mem])
  then have final: "{''th4'', ''er'', ''xy''} \<inter> {''th''} = {}"
    unfolding snd_conv .
  have fin': "finite {''th''}" by simp
  have len': "length ''th'' = 2" by simp
  show ?thesis
    by (intro conjI)
      (rule pyrandom_ok_counter_rng iter_ok_sorted_list_of_set fin' len' example_harden_run final)+
qed

subsection \<open>One substitution returns\<close>

lemma q_gram_dice_sim_returns:
  assumes "finite A" "finite B" "A \<noteq> {}"
  shows "\<exists>s. q_gram_dice_sim A B = Inr s"
proof -
  have pos: "0 < card A + card B" using assms by (simp add: card_gt_0_iff)
  note q = dice_quotient[OF pos dice_num_le[OF assms(1,2)]]
  have nz: "card A + card B \<noteq> 0" using pos by simp
  have "q_gram_dice_sim A B = Inr (2 * of_nat (card (A \<inter> B)) / of_nat (card A + card B))"
    unfolding q_gram_dice_sim_def Let_def using nz q(1,2)
    by (simp only: if_False if_True simp_thms)
  then show ?thesis by (rule exI)
qed

lemma sim_scores_loop_returns:
  assumes "finite qs" "qs \<noteq> {}" "\<forall>ref\<in>set refs. finite (snd ref)"
  shows "\<exists>scores. sim_scores_loop qs refs = Inr scores"
  using assms(3)
proof (induction refs)
  case Nil
  show ?case by simp
next
  case (Cons ref refs)
  obtain ref_id ref_set where ref: "ref = (ref_id, ref_set)" by (cases ref)
  from Cons.prems have "finite ref_set" unfolding ref by simp
  from q_gram_dice_sim_returns[OF assms(1) this assms(2)]
  obtain s where s: "q_gram_dice_sim qs ref_set = Inr s" ..
  from Cons obtain scores where "sim_scores_loop qs refs = Inr scores" by auto
  with s show ?case unfolding ref by simp
qed

lemma select_qualifier_returns:
  assumes "scores \<noteq> []"
  shows "\<exists>qualifier g'. select_qualifier R scores g = Inr (qualifier, g')"
proof -
  define ys where "ys = sort_key (\<lambda>item. - snd item) scores"
  have "length ys = length scores" unfolding ys_def by simp
  with assms have "ys \<noteq> []" by auto
  then obtain y rest where ys: "ys = y # rest" by (cases ys) auto
  show ?thesis
    unfolding select_qualifier_def ys_def[symmetric] Let_def ys
    by (simp add: choice_def split: prod.splits)
qed

lemma harden_q_gram_maximum:
  assumes ok: "pyrandom_ok R"
    and refs: "map_of tbl q_v = Some refs"
    and ne: "refs \<noteq> []"
    and fin: "\<forall>ref\<in>set refs. finite (snd ref)"
    and mem: "q_v \<in> qs"
    and finq: "finite qs"
    and led: "map_of fd q_v \<noteq> None"
  shows "\<exists>m cands k fd' g'.
           cands = map fst (filter (\<lambda>ref. q_gram_dice_sim qs (snd ref) = Inr m) refs)
         \<and> (\<forall>ref\<in>set refs. \<exists>s. q_gram_dice_sim qs (snd ref) = Inr s \<and> s \<le> m)
         \<and> cands \<noteq> []
         \<and> k = fst (rng_choice R (length cands) g)
         \<and> k < length cands
         \<and> harden_q_gram R (Some tbl) q_v (qs, fd, g)
             = Inr (insert (q_v @ str_nat (cands ! k)) (qs - {q_v}), fd', g')"
proof -
  from mem have qne: "qs \<noteq> {}" by auto
  from sim_scores_loop_returns[OF finq qne fin] obtain scores where
    sc: "sim_scores_loop qs refs = Inr scores" ..
  note rel = sim_scores_loop_rel[OF sc]
  from list_all2_lengthD[OF rel] ne have sne: "scores \<noteq> []" by auto
  from select_qualifier_returns[OF sne, of R g] obtain qualifier g' where
    sel: "select_qualifier R scores g = Inr (qualifier, g')" by blast
  from led obtain c where c: "map_of fd q_v = Some c" by blast
  from update_f_dist_returns[OF c] obtain fd' where
    upd: "update_f_dist q_v (q_v @ str_nat qualifier) fd = Inr fd'" by blast
  have run: "harden_q_gram R (Some tbl) q_v (qs, fd, g)
      = Inr (insert (q_v @ str_nat qualifier) (qs - {q_v}), fd', g')"
    unfolding harden_q_gram_def by (simp add: refs sc sel mem upd Let_def)
  from select_qualifier_maximum[OF sel] obtain m where
    upper: "\<forall>item\<in>set scores. snd item \<le> m" and
    cne0: "map fst (filter (\<lambda>item. snd item = m) scores) \<noteq> []" and
    q: "qualifier = map fst (filter (\<lambda>item. snd item = m) scores)
          ! fst (rng_choice R (length (filter (\<lambda>item. snd item = m) scores)) g)"
    by blast
  define cands where
    "cands = map fst (filter (\<lambda>ref. q_gram_dice_sim qs (snd ref) = Inr m) refs)"
  have eq: "map fst (filter (\<lambda>item. snd item = m) scores) = cands"
    unfolding cands_def by (rule scores_filter_refs[OF rel])
  have len: "length (filter (\<lambda>item. snd item = m) scores) = length cands"
    using arg_cong[OF eq, of length] by simp
  have cne: "cands \<noteq> []" using cne0 eq by simp
  have q': "qualifier = cands ! fst (rng_choice R (length cands) g)"
    using q unfolding eq len .
  have bound: "fst (rng_choice R (length cands) g) < length cands"
    using ok cne unfolding pyrandom_ok_def by simp
  have all: "\<forall>ref\<in>set refs. \<exists>s. q_gram_dice_sim qs (snd ref) = Inr s \<and> s \<le> m"
  proof
    fix ref assume "ref \<in> set refs"
    from scores_cover_refs[OF rel this] obtain sc where
      "sc \<in> set scores" "q_gram_dice_sim qs (snd ref) = Inr (snd sc)" by blast
    with upper show "\<exists>s. q_gram_dice_sim qs (snd ref) = Inr s \<and> s \<le> m" by blast
  qed
  show ?thesis
    using cands_def all cne bound run[unfolded q'] by blast
qed

subsection \<open>The substitutions of one record, one after the other\<close>

lemma harden_q_gram_keeps:
  assumes run: "harden_q_gram R table q_v (qs, fd, g) = Inr (qs', fd', g')"
    and ne: "q \<noteq> q_v"
  shows "(q \<in> qs \<longrightarrow> q \<in> qs') \<and> (finite qs \<longrightarrow> finite qs')
    \<and> (map_of fd q \<noteq> None \<longrightarrow> map_of fd' q \<noteq> None)"
proof -
  from run obtain qualifier where
    upd: "update_f_dist q_v (q_v @ str_nat qualifier) fd = Inr fd'" and
    qs': "qs' = insert (q_v @ str_nat qualifier) (qs - {q_v})"
    by (rule harden_q_gram_cases)
  have tok: "q_v \<noteq> q_v @ str_nat qualifier" by (simp add: str_nat_nonempty)
  have led: "map_of fd q \<noteq> None \<longrightarrow> map_of fd' q \<noteq> None"
  proof (cases "q = q_v @ str_nat qualifier")
    case True
    with update_f_dist_entries(2)[OF upd tok] show ?thesis by simp
  next
    case False
    with update_f_dist_entries(3)[OF upd tok] ne show ?thesis by simp
  qed
  from qs' ne led show ?thesis by simp
qed

lemma harden_q_grams_keeps:
  "harden_q_grams R table vs (qs, fd, g) = Inr (qs', fd', g') \<Longrightarrow> q \<notin> set vs \<Longrightarrow>
     (q \<in> qs \<longrightarrow> q \<in> qs') \<and> (finite qs \<longrightarrow> finite qs')
       \<and> (map_of fd q \<noteq> None \<longrightarrow> map_of fd' q \<noteq> None)"
proof (induction vs arbitrary: qs fd g)
  case Nil
  then show ?case by simp
next
  case (Cons q_v vs)
  from Cons.prems(1) obtain qs1 fd1 g1 where
    step: "harden_q_gram R table q_v (qs, fd, g) = Inr (qs1, fd1, g1)" and
    rest: "harden_q_grams R table vs (qs1, fd1, g1) = Inr (qs', fd', g')"
    by (auto split: sum.splits)
  from Cons.prems(2) have ne: "q \<noteq> q_v" and nin: "q \<notin> set vs" by simp_all
  from harden_q_gram_keeps[OF step ne] Cons.IH[OF rest nin] show ?case by blast
qed

lemma harden_q_grams_append:
  "harden_q_grams R table (pre @ post) st =
     (case harden_q_grams R table pre st of
        Inl e \<Rightarrow> Inl e
      | Inr st1 \<Rightarrow> harden_q_grams R table post st1)"
  by (induction pre arbitrary: st) (auto split: sum.splits)

lemma harden_q_grams_returns:
  assumes ok: "pyrandom_ok R"
  shows "distinct vs \<Longrightarrow> set vs \<subseteq> qs \<Longrightarrow> finite qs \<Longrightarrow>
     \<forall>q\<in>set vs. map_of fd q \<noteq> None
        \<and> (\<exists>refs. map_of tbl q = Some refs \<and> refs \<noteq> [] \<and> (\<forall>ref\<in>set refs. finite (snd ref))) \<Longrightarrow>
     \<exists>final. harden_q_grams R (Some tbl) vs (qs, fd, g) = Inr final"
proof (induction vs arbitrary: qs fd g)
  case Nil
  show ?case by simp
next
  case (Cons q_v vs)
  from Cons.prems(4) obtain refs where
    refs: "map_of tbl q_v = Some refs" "refs \<noteq> []" "\<forall>ref\<in>set refs. finite (snd ref)"
    and led: "map_of fd q_v \<noteq> None" by auto
  from Cons.prems(2) have mem: "q_v \<in> qs" by simp
  from harden_q_gram_maximum[OF ok refs mem Cons.prems(3) led, of g]
  obtain qs1 fd1 g1 where
    step: "harden_q_gram R (Some tbl) q_v (qs, fd, g) = Inr (qs1, fd1, g1)" by blast
  have d: "distinct vs" using Cons.prems(1) by simp
  have sub: "set vs \<subseteq> qs1"
  proof
    fix q assume q: "q \<in> set vs"
    with Cons.prems(1) have "q \<noteq> q_v" by auto
    from harden_q_gram_keeps[OF step this] q Cons.prems(2) show "q \<in> qs1" by auto
  qed
  have f: "finite qs1"
    using harden_q_gram_keeps[OF step, of "q_v @ ''x''"] Cons.prems(3) by simp
  have h: "\<forall>q\<in>set vs. map_of fd1 q \<noteq> None
        \<and> (\<exists>refs. map_of tbl q = Some refs \<and> refs \<noteq> [] \<and> (\<forall>ref\<in>set refs. finite (snd ref)))"
  proof
    fix q assume q: "q \<in> set vs"
    with Cons.prems(1) have "q \<noteq> q_v" by auto
    from harden_q_gram_keeps[OF step this] q Cons.prems(4)
    show "map_of fd1 q \<noteq> None
        \<and> (\<exists>refs. map_of tbl q = Some refs \<and> refs \<noteq> [] \<and> (\<forall>ref\<in>set refs. finite (snd ref)))"
      by simp
  qed
  from Cons.IH[OF d sub f h, of g1] step show ?case by simp
qed

lemma harden_records_append:
  "harden_records R iter Qv table (before @ rest) (fd, g) =
     (case harden_records R iter Qv table before (fd, g) of
        Inl e \<Rightarrow> Inl e
      | Inr (out1, fd1, g1) \<Rightarrow>
          (case harden_records R iter Qv table rest (fd1, g1) of
             Inl e \<Rightarrow> Inl e
           | Inr (out2, fd2, g2) \<Rightarrow> Inr (out1 @ out2, fd2, g2)))"
proof (induction before arbitrary: fd g)
  case Nil
  show ?case by (auto split: sum.splits)
next
  case (Cons r before)
  obtain rec_id qs where r: "r = (rec_id, qs)" by (cases r)
  show ?case unfolding r
    by (auto simp add: Cons.IH Let_def split: sum.splits prod.splits)
qed

lemma harden_records_length:
  "harden_records R iter Qv table data (fd, g) = Inr (out, fd', g') \<Longrightarrow> length out = length data"
proof (induction data arbitrary: fd g out)
  case Nil
  then show ?case by simp
next
  case (Cons r data)
  obtain rec_id qs where r: "r = (rec_id, qs)" by (cases r)
  from Cons.prems show ?case unfolding r
    by (auto simp add: Let_def split: sum.splits prod.splits if_splits dest: Cons.IH)
qed

lemma harden_records_at:
  assumes run: "harden_records R iter Qv table (before @ (rec_id, rec_qs) # after) (fd0, g)
                  = Inr (out, fd_out, g_out)"
    and vuln: "0 < card (rec_qs \<inter> Qv)"
  shows "\<exists>out1 fdb gb st.
           harden_records R iter Qv table before (fd0, g) = Inr (out1, fdb, gb)
         \<and> harden_q_grams R table (iter (rec_qs \<inter> Qv)) (rec_qs, fdb, gb) = Inr st
         \<and> out ! length before = (rec_id, fst st)"
proof -
  from run obtain out1 fdb gb out2 where
    b: "harden_records R iter Qv table before (fd0, g) = Inr (out1, fdb, gb)" and
    r: "harden_records R iter Qv table ((rec_id, rec_qs) # after) (fdb, gb)
          = Inr (out2, fd_out, g_out)" and
    out: "out = out1 @ out2"
    unfolding harden_records_append by (auto split: sum.splits prod.splits)
  from r vuln obtain qs' fd2 g2 out3 where
    s: "harden_q_grams R table (iter (rec_qs \<inter> Qv)) (rec_qs, fdb, gb) = Inr (qs', fd2, g2)" and
    out2: "out2 = (rec_id, qs') # out3"
    by (auto simp add: Let_def split: sum.splits prod.splits)
  from harden_records_length[OF b] have "out ! length before = (rec_id, qs')"
    unfolding out out2 by (simp add: nth_append)
  with b s show ?thesis by simp
qed

text \<open>
  Claim C8. Take a record with the set \<open>qs\<close> whose vulnerable q-grams are hardened in the
  order \<open>pre @ q_v # post\<close> (distinct q-grams of \<open>qs\<close>, each with an entry in the
  frequency distribution and with a non-empty list of finite reference sets in the table).
  Then the pass over the record returns, and when \<open>q_v\<close> is reached:
  \<^item> the set that is scored is the record's current set \<open>qs1\<close>, the one left by the
    substitutions of \<open>pre\<close>;
  \<^item> every reference set registered under \<open>q_v\<close> has a score against \<open>qs1\<close>, and some
    score \<open>m\<close> bounds them all;
  \<^item> the candidates are the indices whose reference set scores exactly \<open>m\<close>, in the
    table's order, wherever they stand in the table; there is at least one;
  \<^item> the seeded generator draws a position \<open>k\<close> among the candidates, and the step
    returns the current set with \<open>q_v\<close> replaced by \<open>q_v\<close> followed by the \<open>k\<close>-th
    candidate; with one candidate it is that candidate.

  In a run of \<^verbatim>\<open>harden_with_vah_ref_sets\<close> that returns, a record with a vulnerable q-gram is
  hardened by this pass, from its own set and over its vulnerable q-grams. In the example
  of the specification the scores are \<open>1/3\<close> and \<open>0\<close>, index \<open>4\<close> is chosen and the hardened
  set is \<open>{th4, er, xy}\<close>, whatever the generator.
\<close>

theorem harden_q_grams_select_maximum:
  assumes ok: "pyrandom_ok R"
    and dist: "distinct (pre @ q_v # post)"
    and sub: "set (pre @ q_v # post) \<subseteq> qs"
    and fin: "finite qs"
    and reg: "\<forall>q\<in>set (pre @ q_v # post). map_of fd q \<noteq> None
        \<and> (\<exists>refs. map_of tbl q = Some refs \<and> refs \<noteq> [] \<and> (\<forall>ref\<in>set refs. finite (snd ref)))"
  shows
    "(\<exists>qs1 fd1 g1 refs m cands k fd2 g2 final.
        harden_q_grams R (Some tbl) pre (qs, fd, g) = Inr (qs1, fd1, g1)
      \<and> map_of tbl q_v = Some refs
      \<and> (\<forall>ref\<in>set refs. \<exists>s. q_gram_dice_sim qs1 (snd ref) = Inr s \<and> s \<le> m)
      \<and> cands = map fst (filter (\<lambda>ref. q_gram_dice_sim qs1 (snd ref) = Inr m) refs)
      \<and> cands \<noteq> []
      \<and> k = fst (rng_choice R (length cands) g1)
      \<and> k < length cands
      \<and> (length cands = 1 \<longrightarrow> cands ! k = hd cands)
      \<and> harden_q_gram R (Some tbl) q_v (qs1, fd1, g1)
          = Inr (insert (q_v @ str_nat (cands ! k)) (qs1 - {q_v}), fd2, g2)
      \<and> harden_q_grams R (Some tbl) post
            (insert (q_v @ str_nat (cands ! k)) (qs1 - {q_v}), fd2, g2) = Inr final
      \<and> harden_q_grams R (Some tbl) (pre @ q_v # post) (qs, fd, g) = Inr final)
     \<and> (harden_with_vah_ref_sets R iter self (before @ (rec_id, rec_qs) # after) fd0 g0
            = Inr (out, fd_out, g_out) \<longrightarrow>
        0 < card (rec_qs \<inter> vuln_q_grams self) \<longrightarrow>
          (\<exists>out1 fdb gb st.
              harden_records R iter (vuln_q_grams self) (indexed_ref_sets self) before
                (fd0, rng_seed R (secret_seed self)) = Inr (out1, fdb, gb)
            \<and> harden_q_grams R (indexed_ref_sets self) (iter (rec_qs \<inter> vuln_q_grams self))
                (rec_qs, fdb, gb) = Inr st
            \<and> out ! length before = (rec_id, fst st)))
     \<and> q_gram_dice_sim {''th'', ''er'', ''xy''} {''he'', ''er'', ''re''} = Inr (1 / 3)
     \<and> q_gram_dice_sim {''th'', ''er'', ''xy''} {''in'', ''qu'', ''zx''} = Inr 0
     \<and> (map_of fd_ex ''th'' \<noteq> None \<longrightarrow>
          (\<exists>d g1. harden_q_gram R
              (Some [(''th'', [(4, {''he'', ''er'', ''re''}), (9, {''in'', ''qu'', ''zx''})])])
              ''th'' ({''th'', ''er'', ''xy''}, fd_ex, g_ex)
            = Inr ({''th4'', ''er'', ''xy''}, d, g1)))"
proof (intro conjI impI)
  from dist have dpre: "distinct pre" and nin: "q_v \<notin> set pre" by simp_all
  from sub have spre: "set pre \<subseteq> qs" and mem: "q_v \<in> qs" by simp_all
  from reg have rpre: "\<forall>q\<in>set pre. map_of fd q \<noteq> None
        \<and> (\<exists>refs. map_of tbl q = Some refs \<and> refs \<noteq> [] \<and> (\<forall>ref\<in>set refs. finite (snd ref)))"
    by simp
  from reg obtain refs where
    refs: "map_of tbl q_v = Some refs" "refs \<noteq> []" "\<forall>ref\<in>set refs. finite (snd ref)"
    and led: "map_of fd q_v \<noteq> None" by auto
  from harden_q_grams_returns[OF ok dpre spre fin rpre, of g] obtain qs1 fd1 g1 where
    p: "harden_q_grams R (Some tbl) pre (qs, fd, g) = Inr (qs1, fd1, g1)"
    by (metis prod_cases3)
  from harden_q_grams_keeps[OF p nin] mem fin led
  have mem1: "q_v \<in> qs1" and fin1: "finite qs1" and led1: "map_of fd1 q_v \<noteq> None"
    by simp_all
  from harden_q_gram_maximum[OF ok refs mem1 fin1 led1, of g1]
  obtain m cands k fd2 g2 where
    c: "cands = map fst (filter (\<lambda>ref. q_gram_dice_sim qs1 (snd ref) = Inr m) refs)" and
    all: "\<forall>ref\<in>set refs. \<exists>s. q_gram_dice_sim qs1 (snd ref) = Inr s \<and> s \<le> m" and
    cne: "cands \<noteq> []" and
    k: "k = fst (rng_choice R (length cands) g1)" and
    klt: "k < length cands" and
    step: "harden_q_gram R (Some tbl) q_v (qs1, fd1, g1)
          = Inr (insert (q_v @ str_nat (cands ! k)) (qs1 - {q_v}), fd2, g2)"
    by blast
  from harden_q_grams_returns[OF ok dist sub fin reg, of g] obtain final where
    w: "harden_q_grams R (Some tbl) (pre @ q_v # post) (qs, fd, g) = Inr final" ..
  from w have rest: "harden_q_grams R (Some tbl) post
            (insert (q_v @ str_nat (cands ! k)) (qs1 - {q_v}), fd2, g2) = Inr final"
    unfolding harden_q_grams_append by (simp add: p step)
  have one: "length cands = 1 \<longrightarrow> cands ! k = hd cands"
    using klt by (cases cands) auto
  show "\<exists>qs1 fd1 g1 refs m cands k fd2 g2 final.
        harden_q_grams R (Some tbl) pre (qs, fd, g) = Inr (qs1, fd1, g1)
      \<and> map_of tbl q_v = Some refs
      \<and> (\<forall>ref\<in>set refs. \<exists>s. q_gram_dice_sim qs1 (snd ref) = Inr s \<and> s \<le> m)
      \<and> cands = map fst (filter (\<lambda>ref. q_gram_dice_sim qs1 (snd ref) = Inr m) refs)
      \<and> cands \<noteq> []
      \<and> k = fst (rng_choice R (length cands) g1)
      \<and> k < length cands
      \<and> (length cands = 1 \<longrightarrow> cands ! k = hd cands)
      \<and> harden_q_gram R (Some tbl) q_v (qs1, fd1, g1)
          = Inr (insert (q_v @ str_nat (cands ! k)) (qs1 - {q_v}), fd2, g2)
      \<and> harden_q_grams R (Some tbl) post
            (insert (q_v @ str_nat (cands ! k)) (qs1 - {q_v}), fd2, g2) = Inr final
      \<and> harden_q_grams R (Some tbl) (pre @ q_v # post) (qs, fd, g) = Inr final"
    by (intro exI[of _ qs1] exI[of _ fd1] exI[of _ g1] exI[of _ refs] exI[of _ m]
        exI[of _ cands] exI[of _ k] exI[of _ fd2] exI[of _ g2] exI[of _ final] conjI)
      (rule p refs(1) all c cne k klt one step rest w)+
next
  assume "harden_with_vah_ref_sets R iter self (before @ (rec_id, rec_qs) # after) fd0 g0
            = Inr (out, fd_out, g_out)"
    and "0 < card (rec_qs \<inter> vuln_q_grams self)"
  then show "\<exists>out1 fdb gb st.
              harden_records R iter (vuln_q_grams self) (indexed_ref_sets self) before
                (fd0, rng_seed R (secret_seed self)) = Inr (out1, fdb, gb)
            \<and> harden_q_grams R (indexed_ref_sets self) (iter (rec_qs \<inter> vuln_q_grams self))
                (rec_qs, fdb, gb) = Inr st
            \<and> out ! length before = (rec_id, fst st)"
    unfolding harden_with_vah_ref_sets_def by (rule harden_records_at)
next
  show "q_gram_dice_sim {''th'', ''er'', ''xy''} {''he'', ''er'', ''re''} = Inr (1 / 3)"
    by (simp add: q_gram_dice_sim_def)
next
  show "q_gram_dice_sim {''th'', ''er'', ''xy''} {''in'', ''qu'', ''zx''} = Inr 0"
    by (simp add: q_gram_dice_sim_def)
next
  assume "map_of fd_ex ''th'' \<noteq> None"
  then obtain c where c: "map_of fd_ex ''th'' = Some c" by blast
  from update_f_dist_returns[OF c] obtain d where
    d: "update_f_dist ''th'' ''th4'' fd_ex = Inr d" by blast
  have one: "fst (rng_choice R (Suc 0) g_ex) = 0"
    using ok unfolding pyrandom_ok_def by (metis less_Suc0 zero_less_Suc)
  have sel: "select_qualifier R [(4, 1 / 3), (9, 0)] g_ex = Inr (4, snd (rng_choice R (Suc 0) g_ex))"
    using one by (cases "rng_choice R (Suc 0) g_ex") (simp add: select_qualifier_def choice_def)
  have set_eq: "insert ''th4'' ({''th'', ''er'', ''xy''} - {''th''}) = {''th4'', ''er'', ''xy''}"
    by auto
  have "harden_q_gram R
          (Some [(''th'', [(4, {''he'', ''er'', ''re''}), (9, {''in'', ''qu'', ''zx''})])])
          ''th'' ({''th'', ''er'', ''xy''}, fd_ex, g_ex)
        = Inr ({''th4'', ''er'', ''xy''}, d, snd (rng_choice R (Suc 0) g_ex))"
    unfolding harden_q_gram_def
    by (simp add: q_gram_dice_sim_def sel str_nat_4 d set_eq Let_def)
  then show "\<exists>d g1. harden_q_gram R
              (Some [(''th'', [(4, {''he'', ''er'', ''re''}), (9, {''in'', ''qu'', ''zx''})])])
              ''th'' ({''th'', ''er'', ''xy''}, fd_ex, g_ex)
            = Inr ({''th4'', ''er'', ''xy''}, d, g1)" by blast
qed

lemma str_nat_5: "str_nat 5 = ''5''"
  by (simp add: str_nat_digit digit_char_def)

lemma str_nat_8: "str_nat 8 = ''8''"
  by (simp add: str_nat_digit digit_char_def)

lemma tie_example_first_step:
  "harden_q_gram counter_rng
     (Some [(''er'', [(5, {''th'', ''zz''})]),
            (''th'', [(9, {''in'', ''qu'', ''zx''}), (4, {''he'', ''er'', ''re''}),
                      (7, {''xy'', ''ab'', ''cd''}), (8, {''xy'', ''ef'', ''gh''})])])
     ''er'' ({''th'', ''er'', ''xy''}, [(''th'', 2), (''er'', 1), (''xy'', 1)], 0)
   = Inr ({''er5'', ''th'', ''xy''}, [(''th'', 2), (''xy'', 1), (''er5'', 1)], 1)"
  by (auto simp add: harden_q_gram_def q_gram_dice_sim_def select_qualifier_def choice_def
      counter_rng_def str_nat_5 update_f_dist_def Let_def)

lemma tie_example_second_step:
  "harden_q_gram counter_rng
     (Some [(''er'', [(5, {''th'', ''zz''})]),
            (''th'', [(9, {''in'', ''qu'', ''zx''}), (4, {''he'', ''er'', ''re''}),
                      (7, {''xy'', ''ab'', ''cd''}), (8, {''xy'', ''ef'', ''gh''})])])
     ''th'' ({''er5'', ''th'', ''xy''}, [(''th'', 2), (''xy'', 1), (''er5'', 1)], 1)
   = Inr ({''th8'', ''er5'', ''xy''}, [(''th'', 1), (''xy'', 1), (''er5'', 1), (''th8'', 1)], 2)"
  by (auto simp add: harden_q_gram_def q_gram_dice_sim_def select_qualifier_def choice_def
      counter_rng_def str_nat_8 update_f_dist_def Let_def)

lemma tie_example_candidates:
  "map fst (filter (\<lambda>ref. q_gram_dice_sim {''er5'', ''th'', ''xy''} (snd ref) = Inr (1 / 3))
      [(9::nat, {''in'', ''qu'', ''zx''}), (4, {''he'', ''er'', ''re''}),
       (7, {''xy'', ''ab'', ''cd''}), (8, {''xy'', ''ef'', ''gh''})]) = [7, 8]"
  by (simp add: q_gram_dice_sim_def)

lemma tie_example_run:
  "harden_with_vah_ref_sets counter_rng sorted_list_of_set
     \<lparr>secret_seed = 0, vuln_q_grams = {''er'', ''th''}, non_vuln_q_grams = [], l_r = 3,
      indexed_ref_sets =
        Some [(''er'', [(5, {''th'', ''zz''})]),
              (''th'', [(9, {''in'', ''qu'', ''zx''}), (4, {''he'', ''er'', ''re''}),
                        (7, {''xy'', ''ab'', ''cd''}), (8, {''xy'', ''ef'', ''gh''})])]\<rparr>
     [(''s1'', {''th'', ''er'', ''xy''})] [(''th'', 2), (''er'', 1), (''xy'', 1)] 5
   = Inr ([(''s1'', {''th8'', ''er5'', ''xy''})],
          [(''th'', 1), (''xy'', 1), (''er5'', 1), (''th8'', 1)], 2)"
proof -
  have seed: "rng_seed counter_rng 0 = 0" by (simp add: counter_rng_def)
  have inter: "{''th'', ''er'', ''xy''} \<inter> {''er'', ''th''} = {''er'', ''th''}" by auto
  have order: "sorted_list_of_set {''er'', ''th''} = [''er'', ''th'']" by simp
  show ?thesis
    unfolding harden_with_vah_ref_sets_def
    by (simp add: seed inter order tie_example_first_step
        tie_example_second_step[unfolded One_nat_def])
qed

theorem harden_q_grams_select_maximum_witness:
  "pyrandom_ok counter_rng
   \<and> harden_q_grams counter_rng
        (Some [(''er'', [(5, {''th'', ''zz''})]),
               (''th'', [(9, {''in'', ''qu'', ''zx''}), (4, {''he'', ''er'', ''re''}),
                         (7, {''xy'', ''ab'', ''cd''}), (8, {''xy'', ''ef'', ''gh''})])])
        [''er''] ({''th'', ''er'', ''xy''}, [(''th'', 2), (''er'', 1), (''xy'', 1)], 0)
       = Inr ({''er5'', ''th'', ''xy''}, [(''th'', 2), (''xy'', 1), (''er5'', 1)], 1)
   \<and> (\<exists>m cands k.
         cands = map fst (filter (\<lambda>ref. q_gram_dice_sim {''er5'', ''th'', ''xy''} (snd ref) = Inr m)
                   [(9, {''in'', ''qu'', ''zx''}), (4, {''he'', ''er'', ''re''}),
                    (7, {''xy'', ''ab'', ''cd''}), (8, {''xy'', ''ef'', ''gh''})])
       \<and> cands \<noteq> []
       \<and> k = fst (rng_choice counter_rng (length cands) 1)
       \<and> k < length cands
       \<and> {''th8'', ''er5'', ''xy''}
           = insert (''th'' @ str_nat (cands ! k)) ({''er5'', ''th'', ''xy''} - {''th''}))
   \<and> map fst (filter (\<lambda>ref. q_gram_dice_sim {''er5'', ''th'', ''xy''} (snd ref) = Inr (1 / 3))
         [(9::nat, {''in'', ''qu'', ''zx''}), (4, {''he'', ''er'', ''re''}),
          (7, {''xy'', ''ab'', ''cd''}), (8, {''xy'', ''ef'', ''gh''})]) = [7, 8]
   \<and> harden_q_grams counter_rng
        (Some [(''er'', [(5, {''th'', ''zz''})]),
               (''th'', [(9, {''in'', ''qu'', ''zx''}), (4, {''he'', ''er'', ''re''}),
                         (7, {''xy'', ''ab'', ''cd''}), (8, {''xy'', ''ef'', ''gh''})])])
        [''er'', ''th''] ({''th'', ''er'', ''xy''}, [(''th'', 2), (''er'', 1), (''xy'', 1)], 0)
       = Inr ({''th8'', ''er5'', ''xy''}, [(''th'', 1), (''xy'', 1), (''er5'', 1), (''th8'', 1)], 2)
   \<and> (\<exists>st. harden_q_grams counter_rng
          (Some [(''er'', [(5, {''th'', ''zz''})]),
                 (''th'', [(9, {''in'', ''qu'', ''zx''}), (4, {''he'', ''er'', ''re''}),
                           (7, {''xy'', ''ab'', ''cd''}), (8, {''xy'', ''ef'', ''gh''})])])
          (sorted_list_of_set ({''th'', ''er'', ''xy''} \<inter> {''er'', ''th''}))
          ({''th'', ''er'', ''xy''}, [(''th'', 2), (''er'', 1), (''xy'', 1)], 0) = Inr st
        \<and> [(''s1'', {''th8'', ''er5'', ''xy''})] ! 0 = (''s1'', fst st))
   \<and> (\<exists>d g1. harden_q_gram counter_rng
          (Some [(''th'', [(4, {''he'', ''er'', ''re''}), (9, {''in'', ''qu'', ''zx''})])])
          ''th'' ({''th'', ''er'', ''xy''}, [(''th'', 2), (''er'', 1), (''xy'', 1)], 0)
        = Inr ({''th4'', ''er'', ''xy''}, d, g1))"
proof -
  let ?refs = "[(9::nat, {''in'', ''qu'', ''zx''}), (4, {''he'', ''er'', ''re''}),
                (7, {''xy'', ''ab'', ''cd''}), (8, {''xy'', ''ef'', ''gh''})]"
  let ?T = "[(''er'', [(5::nat, {''th'', ''zz''})]), (''th'', ?refs)]"
  let ?Q = "{''th'', ''er'', ''xy''}"
  let ?Q1 = "{''er5'', ''th'', ''xy''}"
  let ?Q2 = "{''th8'', ''er5'', ''xy''}"
  let ?F = "[(''th'', 2::int), (''er'', 1), (''xy'', 1)]"
  let ?F1 = "[(''th'', 2::int), (''xy'', 1), (''er5'', 1)]"
  let ?F2 = "[(''th'', 1::int), (''xy'', 1), (''er5'', 1), (''th8'', 1)]"
  let ?self = "\<lparr>secret_seed = 0, vuln_q_grams = {''er'', ''th''}, non_vuln_q_grams = [], l_r = 3,
      indexed_ref_sets = Some ?T\<rparr>"
  have dist: "distinct ([''er''] @ ''th'' # [])" by simp
  have sub: "set ([''er''] @ ''th'' # []) \<subseteq> ?Q" by simp
  have fin: "finite ?Q" by simp
  have reg: "\<forall>q\<in>set ([''er''] @ ''th'' # []). map_of ?F q \<noteq> None
        \<and> (\<exists>refs. map_of ?T q = Some refs \<and> refs \<noteq> [] \<and> (\<forall>ref\<in>set refs. finite (snd ref)))"
    by simp
  have led: "map_of ?F ''th'' \<noteq> None" by simp
  have vuln: "0 < card (?Q \<inter> vuln_q_grams ?self)" by simp
  have run: "harden_with_vah_ref_sets counter_rng sorted_list_of_set ?self
      ([] @ (''s1'', ?Q) # []) ?F 5 = Inr ([(''s1'', ?Q2)], ?F2, 2)"
    using tie_example_run by simp
  note inst = harden_q_grams_select_maximum[OF pyrandom_ok_counter_rng dist sub fin reg,
      where g = 0 and iter = sorted_list_of_set and self = ?self and before = "[]"
        and rec_id = "''s1''" and rec_qs = ?Q and after = "[]" and ?fd0.0 = ?F and ?g0.0 = 5
        and out = "[(''s1'', ?Q2)]" and fd_out = ?F2 and g_out = 2
        and fd_ex = ?F and g_ex = 0]
  have pre: "harden_q_grams counter_rng (Some ?T) [''er''] (?Q, ?F, 0) = Inr (?Q1, ?F1, 1)"
    by (simp add: tie_example_first_step)
  have whole: "harden_q_grams counter_rng (Some ?T) [''er'', ''th''] (?Q, ?F, 0)
      = Inr (?Q2, ?F2, 2)"
    by (simp add: tie_example_first_step tie_example_second_step[unfolded One_nat_def])
  from conjunct1[OF inst] obtain qs1 fd1 g1 refs m cands k fd2 g2 final where
    p: "harden_q_grams counter_rng (Some ?T) [''er''] (?Q, ?F, 0) = Inr (qs1, fd1, g1)" and
    r: "map_of ?T ''th'' = Some refs" and
    c: "cands = map fst (filter (\<lambda>ref. q_gram_dice_sim qs1 (snd ref) = Inr m) refs)" and
    cne: "cands \<noteq> []" and
    k: "k = fst (rng_choice counter_rng (length cands) g1)" and
    klt: "k < length cands" and
    rest: "harden_q_grams counter_rng (Some ?T) []
            (insert (''th'' @ str_nat (cands ! k)) (qs1 - {''th''}), fd2, g2) = Inr final" and
    w: "harden_q_grams counter_rng (Some ?T) ([''er''] @ ''th'' # []) (?Q, ?F, 0) = Inr final"
    by (elim exE conjE)
  from p pre have qs1: "qs1 = ?Q1" and g1: "g1 = 1" by simp_all
  from r have refs: "refs = ?refs" by simp
  from rest w whole have res: "?Q2 = insert (''th'' @ str_nat (cands ! k)) (qs1 - {''th''})"
    by simp
  have ex1: "\<exists>m cands k.
         cands = map fst (filter (\<lambda>ref. q_gram_dice_sim ?Q1 (snd ref) = Inr m) ?refs)
       \<and> cands \<noteq> []
       \<and> k = fst (rng_choice counter_rng (length cands) 1)
       \<and> k < length cands
       \<and> ?Q2 = insert (''th'' @ str_nat (cands ! k)) (?Q1 - {''th''})"
    by (intro exI[of _ m] exI[of _ cands] exI[of _ k] conjI)
      (rule c[unfolded qs1 refs] cne k[unfolded g1] klt res[unfolded qs1])+
  from mp[OF mp[OF conjunct1[OF conjunct2[OF inst]] run] vuln]
  obtain out1 fdb gb st where
    b: "harden_records counter_rng sorted_list_of_set (vuln_q_grams ?self)
          (indexed_ref_sets ?self) [] (?F, rng_seed counter_rng (secret_seed ?self))
          = Inr (out1, fdb, gb)" and
    s: "harden_q_grams counter_rng (indexed_ref_sets ?self)
          (sorted_list_of_set (?Q \<inter> vuln_q_grams ?self)) (?Q, fdb, gb) = Inr st" and
    o: "[(''s1'', ?Q2)] ! length ([]::(string \<times> string set) list) = (''s1'', fst st)"
    by (elim exE conjE)
  from b have fdb: "fdb = ?F" and gb: "gb = 0" by (simp_all add: counter_rng_def)
  have ex2: "\<exists>st. harden_q_grams counter_rng (Some ?T)
          (sorted_list_of_set (?Q \<inter> {''er'', ''th''})) (?Q, ?F, 0) = Inr st
        \<and> [(''s1'', ?Q2)] ! 0 = (''s1'', fst st)"
    using s o unfolding fdb gb by (intro exI[of _ st]) simp
  have ex3: "\<exists>d g1. harden_q_gram counter_rng
          (Some [(''th'', [(4, {''he'', ''er'', ''re''}), (9, {''in'', ''qu'', ''zx''})])])
          ''th'' (?Q, ?F, 0) = Inr ({''th4'', ''er'', ''xy''}, d, g1)"
    by (rule mp[OF conjunct2[OF conjunct2[OF conjunct2[OF conjunct2[OF inst]]]] led])
  show ?thesis
    by (intro conjI)
      (rule pyrandom_ok_counter_rng pre ex1 tie_example_candidates whole ex2 ex3)+
qed

subsection \<open>The counts of the vulnerable q-grams over a run\<close>

lemma harden_q_gram_ledger:
  assumes run: "harden_q_gram R table q_v (qs, fd, g) = Inr (qs', fd', g')"
  shows "\<exists>c idx. map_of fd q_v = Some c
      \<and> qs' = insert (q_v @ str_nat idx) (qs - {q_v})
      \<and> map_of fd' q_v = (if c = 1 then None else Some (c - 1))
      \<and> map_of fd' (q_v @ str_nat idx)
          = Some ((case map_of fd (q_v @ str_nat idx) of None \<Rightarrow> 0 | Some r \<Rightarrow> r) + 1)
      \<and> (\<forall>k. k \<noteq> q_v \<longrightarrow> k \<noteq> q_v @ str_nat idx \<longrightarrow> map_of fd' k = map_of fd k)"
proof -
  from run obtain qualifier where
    upd: "update_f_dist q_v (q_v @ str_nat qualifier) fd = Inr fd'" and
    qs': "qs' = insert (q_v @ str_nat qualifier) (qs - {q_v})"
    by (rule harden_q_gram_cases)
  have tok: "q_v \<noteq> q_v @ str_nat qualifier" by (simp add: str_nat_nonempty)
  from update_f_dist_entries(1)[OF upd tok] obtain c where
    c: "map_of fd q_v = Some c" "map_of fd' q_v = (if c = 1 then None else Some (c - 1))"
    by blast
  show ?thesis
    by (intro exI[of _ c] exI[of _ qualifier] conjI)
      (rule c qs' update_f_dist_entries(2)[OF upd tok] update_f_dist_entries(3)[OF upd tok])+
qed

lemma harden_q_gram_count:
  assumes run: "harden_q_gram R table q_v (qs, fd, g) = Inr (qs', fd', g')"
    and len: "length q \<le> length q_v"
  shows "f_dist_count fd' q = f_dist_count fd q - (if q = q_v then 1 else 0)"
    and "q = q_v \<longrightarrow> map_of fd' q \<noteq> Some 0"
    and "q \<noteq> q_v \<longrightarrow> map_of fd' q = map_of fd q"
proof -
  from harden_q_gram_ledger[OF run] obtain c idx where
    c: "map_of fd q_v = Some c" and
    v: "map_of fd' q_v = (if c = 1 then None else Some (c - 1))" and
    o: "\<forall>k. k \<noteq> q_v \<longrightarrow> k \<noteq> q_v @ str_nat idx \<longrightarrow> map_of fd' k = map_of fd k"
    by blast
  have "length q_v < length (q_v @ str_nat idx)" by (simp add: str_nat_nonempty)
  with len have ne: "q \<noteq> q_v @ str_nat idx" by auto
  show "f_dist_count fd' q = f_dist_count fd q - (if q = q_v then 1 else 0)"
    unfolding f_dist_count_def using c v o ne by (cases "q = q_v") simp_all
  show "q = q_v \<longrightarrow> map_of fd' q \<noteq> Some 0" using v by simp
  show "q \<noteq> q_v \<longrightarrow> map_of fd' q = map_of fd q" using o ne by simp
qed

lemma harden_q_grams_count:
  "harden_q_grams R table vs (qs, fd, g) = Inr (qs', fd', g') \<Longrightarrow> distinct vs \<Longrightarrow>
   \<forall>v\<in>set vs. length v = n \<Longrightarrow> length q = n \<Longrightarrow>
     f_dist_count fd' q = f_dist_count fd q - (if q \<in> set vs then 1 else 0)
     \<and> (q \<in> set vs \<longrightarrow> map_of fd' q \<noteq> Some 0)
     \<and> (q \<notin> set vs \<longrightarrow> map_of fd' q = map_of fd q)"
proof (induction vs arbitrary: qs fd g)
  case Nil
  then show ?case by simp
next
  case (Cons q_v vs)
  from Cons.prems(1) obtain qs1 fd1 g1 where
    step: "harden_q_gram R table q_v (qs, fd, g) = Inr (qs1, fd1, g1)" and
    rest: "harden_q_grams R table vs (qs1, fd1, g1) = Inr (qs', fd', g')"
    by (auto split: sum.splits)
  from Cons.prems have len: "length q \<le> length q_v" by simp
  note s = harden_q_gram_count[OF step len]
  from Cons.prems have d: "distinct vs" and nin: "q_v \<notin> set vs"
    and l: "\<forall>v\<in>set vs. length v = n" by simp_all
  note r = Cons.IH[OF rest d l Cons.prems(4)]
  show ?case
  proof (cases "q = q_v")
    case True
    with nin have "q \<notin> set vs" by simp
    with r s True show ?thesis by simp
  next
    case False
    with r s show ?thesis by simp
  qed
qed

lemma harden_records_count:
  assumes it: "iter_ok iter" and fin: "finite Qv" and len: "\<forall>v\<in>Qv. length v = n"
    and q: "q \<in> Qv"
  shows "harden_records R iter Qv table data (fd, g) = Inr (out, fd', g') \<Longrightarrow>
     f_dist_count fd' q = f_dist_count fd q - int (length (filter (\<lambda>rec. q \<in> snd rec) data))
     \<and> ((\<exists>rec\<in>set data. q \<in> snd rec) \<longrightarrow> map_of fd' q \<noteq> Some 0)
     \<and> (\<not> (\<exists>rec\<in>set data. q \<in> snd rec) \<longrightarrow> map_of fd' q = map_of fd q)"
proof (induction data arbitrary: fd g out)
  case Nil
  then show ?case by simp
next
  case (Cons r data)
  obtain rec_id qs where r: "r = (rec_id, qs)" by (cases r)
  have finv: "finite (qs \<inter> Qv)" using fin by simp
  from it finv have vs: "set (iter (qs \<inter> Qv)) = qs \<inter> Qv" "distinct (iter (qs \<inter> Qv))"
    unfolding iter_ok_def by simp_all
  from q len have lq: "length q = n" by simp
  show ?case
  proof (cases "card (qs \<inter> Qv) > 0")
    case True
    with Cons.prems obtain qs1 fd1 g1 out1 where
      step: "harden_q_grams R table (iter (qs \<inter> Qv)) (qs, fd, g) = Inr (qs1, fd1, g1)" and
      rest: "harden_records R iter Qv table data (fd1, g1) = Inr (out1, fd', g')"
      unfolding r by (auto simp add: Let_def split: sum.splits)
    have l: "\<forall>v\<in>set (iter (qs \<inter> Qv)). length v = n" using vs(1) len by simp
    note s = harden_q_grams_count[OF step vs(2) l lq, unfolded vs(1)]
    note t = Cons.IH[OF rest]
    show ?thesis
    proof (cases "q \<in> qs")
      case True
      with s t q show ?thesis unfolding r by auto
    next
      case False
      with s t q show ?thesis unfolding r by auto
    qed
  next
    case False
    with finv have "qs \<inter> Qv = {}" by simp
    with q have nq: "q \<notin> qs" by auto
    from False Cons.prems obtain out1 where
      rest: "harden_records R iter Qv table data (fd, g) = Inr (out1, fd', g')"
      unfolding r by (auto simp add: Let_def split: sum.splits)
    from Cons.IH[OF rest] nq show ?thesis unfolding r by simp
  qed
qed

lemma harden_records_distinct:
  "distinct (map fst fd) \<Longrightarrow>
   harden_records R iter Qv table data (fd, g) = Inr (hardened, fd', g') \<Longrightarrow>
     distinct (map fst fd')"
proof (induction data arbitrary: fd g hardened)
  case Nil
  then show ?case by simp
next
  case (Cons rec data)
  obtain rec_id qs where rec: "rec = (rec_id, qs)" by (cases rec)
  show ?case
  proof (cases "card (qs \<inter> Qv) > 0")
    case True
    with Cons.prems(2) obtain qs1 fd1 g1 hardened1 where
      step: "harden_q_grams R table (iter (qs \<inter> Qv)) (qs, fd, g) = Inr (qs1, fd1, g1)" and
      rest: "harden_records R iter Qv table data (fd1, g1) = Inr (hardened1, fd', g')"
      unfolding rec by (auto simp add: Let_def split: sum.splits)
    from harden_q_grams_total[OF Cons.prems(1) step]
    have d1: "distinct (map fst fd1)" by simp
    from Cons.IH[OF d1 rest] show ?thesis .
  next
    case False
    with Cons.prems(2) obtain hardened1 where
      rest: "harden_records R iter Qv table data (fd, g) = Inr (hardened1, fd', g')"
      unfolding rec by (auto simp add: Let_def split: sum.splits)
    from Cons.IH[OF Cons.prems(1) rest] show ?thesis .
  qed
qed

text \<open>
  Claim C2. A run of \<^verbatim>\<open>harden_with_vah_ref_sets\<close> that completes leaves the sum of the
  counts of the frequency distribution as it was, and its keys distinct. Over the run the
  count of a vulnerable q-gram goes down by one for every record that holds it, and its
  entry is gone exactly when that count has reached zero (the vulnerable q-grams have one
  length, so that no qualified token is one of them).

  Each substitution, the step \<^verbatim>\<open>harden_q_gram\<close> of the run, returns the distribution it
  was given with the count of the vulnerable q-gram lowered by one, its entry deleted
  exactly when the count was one, the count of the qualified token that enters the
  record raised by one (from zero when it had no entry), every other entry as it was, and
  the same sum. The distribution is a dictionary: its keys are distinct.
\<close>

theorem harden_ledger_conserved:
  assumes "distinct (map fst q_gram_f_dist)"
  shows
    "(harden_with_vah_ref_sets R iter self data_dict q_gram_f_dist g0
        = Inr (hardened, q_gram_f_dist', g') \<longrightarrow>
        f_dist_total q_gram_f_dist' = f_dist_total q_gram_f_dist
      \<and> distinct (map fst q_gram_f_dist')
      \<and> (iter_ok iter \<longrightarrow> finite (vuln_q_grams self) \<longrightarrow>
         (\<forall>v\<in>vuln_q_grams self. length v = n) \<longrightarrow>
           (\<forall>q\<in>vuln_q_grams self.
              f_dist_count q_gram_f_dist' q
                = f_dist_count q_gram_f_dist q
                    - int (length (filter (\<lambda>rec. q \<in> snd rec) data_dict))
            \<and> ((\<exists>rec\<in>set data_dict. q \<in> snd rec) \<longrightarrow> map_of q_gram_f_dist' q \<noteq> Some 0)
            \<and> (\<not> (\<exists>rec\<in>set data_dict. q \<in> snd rec) \<longrightarrow>
                  map_of q_gram_f_dist' q = map_of q_gram_f_dist q))))
     \<and> (harden_q_gram R table q_v (qs, q_gram_f_dist, g) = Inr (qs', d, g1) \<longrightarrow>
          (\<exists>c idx. map_of q_gram_f_dist q_v = Some c
            \<and> qs' = insert (q_v @ str_nat idx) (qs - {q_v})
            \<and> map_of d q_v = (if c = 1 then None else Some (c - 1))
            \<and> map_of d (q_v @ str_nat idx)
                = Some ((case map_of q_gram_f_dist (q_v @ str_nat idx) of
                           None \<Rightarrow> 0 | Some r \<Rightarrow> r) + 1)
            \<and> (\<forall>k. k \<noteq> q_v \<longrightarrow> k \<noteq> q_v @ str_nat idx \<longrightarrow> map_of d k = map_of q_gram_f_dist k))
        \<and> f_dist_total d = f_dist_total q_gram_f_dist
        \<and> distinct (map fst d))"
proof (rule conjI)
  show "harden_with_vah_ref_sets R iter self data_dict q_gram_f_dist g0
        = Inr (hardened, q_gram_f_dist', g') \<longrightarrow>
        f_dist_total q_gram_f_dist' = f_dist_total q_gram_f_dist
      \<and> distinct (map fst q_gram_f_dist')
      \<and> (iter_ok iter \<longrightarrow> finite (vuln_q_grams self) \<longrightarrow>
         (\<forall>v\<in>vuln_q_grams self. length v = n) \<longrightarrow>
           (\<forall>q\<in>vuln_q_grams self.
              f_dist_count q_gram_f_dist' q
                = f_dist_count q_gram_f_dist q
                    - int (length (filter (\<lambda>rec. q \<in> snd rec) data_dict))
            \<and> ((\<exists>rec\<in>set data_dict. q \<in> snd rec) \<longrightarrow> map_of q_gram_f_dist' q \<noteq> Some 0)
            \<and> (\<not> (\<exists>rec\<in>set data_dict. q \<in> snd rec) \<longrightarrow>
                  map_of q_gram_f_dist' q = map_of q_gram_f_dist q)))"
  proof (rule impI)
    assume run: "harden_with_vah_ref_sets R iter self data_dict q_gram_f_dist g0
            = Inr (hardened, q_gram_f_dist', g')"
    note rec = run[unfolded harden_with_vah_ref_sets_def]
    have tot: "f_dist_total q_gram_f_dist' = f_dist_total q_gram_f_dist"
      by (rule harden_records_total[OF assms rec])
    have dist: "distinct (map fst q_gram_f_dist')"
      by (rule harden_records_distinct[OF assms rec])
    have cnt: "iter_ok iter \<longrightarrow> finite (vuln_q_grams self) \<longrightarrow>
         (\<forall>v\<in>vuln_q_grams self. length v = n) \<longrightarrow>
           (\<forall>q\<in>vuln_q_grams self.
              f_dist_count q_gram_f_dist' q
                = f_dist_count q_gram_f_dist q
                    - int (length (filter (\<lambda>rec. q \<in> snd rec) data_dict))
            \<and> ((\<exists>rec\<in>set data_dict. q \<in> snd rec) \<longrightarrow> map_of q_gram_f_dist' q \<noteq> Some 0)
            \<and> (\<not> (\<exists>rec\<in>set data_dict. q \<in> snd rec) \<longrightarrow>
                  map_of q_gram_f_dist' q = map_of q_gram_f_dist q))"
    proof (intro impI ballI)
      fix q
      assume it: "iter_ok iter" and fin: "finite (vuln_q_grams self)"
        and len: "\<forall>v\<in>vuln_q_grams self. length v = n" and q: "q \<in> vuln_q_grams self"
      show "f_dist_count q_gram_f_dist' q
                = f_dist_count q_gram_f_dist q
                    - int (length (filter (\<lambda>rec. q \<in> snd rec) data_dict))
            \<and> ((\<exists>rec\<in>set data_dict. q \<in> snd rec) \<longrightarrow> map_of q_gram_f_dist' q \<noteq> Some 0)
            \<and> (\<not> (\<exists>rec\<in>set data_dict. q \<in> snd rec) \<longrightarrow>
                  map_of q_gram_f_dist' q = map_of q_gram_f_dist q)"
        by (rule harden_records_count[OF it fin len q rec])
    qed
    from tot dist cnt show "f_dist_total q_gram_f_dist' = f_dist_total q_gram_f_dist
      \<and> distinct (map fst q_gram_f_dist')
      \<and> (iter_ok iter \<longrightarrow> finite (vuln_q_grams self) \<longrightarrow>
         (\<forall>v\<in>vuln_q_grams self. length v = n) \<longrightarrow>
           (\<forall>q\<in>vuln_q_grams self.
              f_dist_count q_gram_f_dist' q
                = f_dist_count q_gram_f_dist q
                    - int (length (filter (\<lambda>rec. q \<in> snd rec) data_dict))
            \<and> ((\<exists>rec\<in>set data_dict. q \<in> snd rec) \<longrightarrow> map_of q_gram_f_dist' q \<noteq> Some 0)
            \<and> (\<not> (\<exists>rec\<in>set data_dict. q \<in> snd rec) \<longrightarrow>
                  map_of q_gram_f_dist' q = map_of q_gram_f_dist q)))"
      by (intro conjI)
  qed
next
  show "harden_q_gram R table q_v (qs, q_gram_f_dist, g) = Inr (qs', d, g1) \<longrightarrow>
          (\<exists>c idx. map_of q_gram_f_dist q_v = Some c
            \<and> qs' = insert (q_v @ str_nat idx) (qs - {q_v})
            \<and> map_of d q_v = (if c = 1 then None else Some (c - 1))
            \<and> map_of d (q_v @ str_nat idx)
                = Some ((case map_of q_gram_f_dist (q_v @ str_nat idx) of
                           None \<Rightarrow> 0 | Some r \<Rightarrow> r) + 1)
            \<and> (\<forall>k. k \<noteq> q_v \<longrightarrow> k \<noteq> q_v @ str_nat idx \<longrightarrow> map_of d k = map_of q_gram_f_dist k))
        \<and> f_dist_total d = f_dist_total q_gram_f_dist
        \<and> distinct (map fst d)"
  proof (intro impI conjI)
    assume step: "harden_q_gram R table q_v (qs, q_gram_f_dist, g) = Inr (qs', d, g1)"
    show "\<exists>c idx. map_of q_gram_f_dist q_v = Some c
            \<and> qs' = insert (q_v @ str_nat idx) (qs - {q_v})
            \<and> map_of d q_v = (if c = 1 then None else Some (c - 1))
            \<and> map_of d (q_v @ str_nat idx)
                = Some ((case map_of q_gram_f_dist (q_v @ str_nat idx) of
                           None \<Rightarrow> 0 | Some r \<Rightarrow> r) + 1)
            \<and> (\<forall>k. k \<noteq> q_v \<longrightarrow> k \<noteq> q_v @ str_nat idx \<longrightarrow> map_of d k = map_of q_gram_f_dist k)"
      by (rule harden_q_gram_ledger[OF step])
    from harden_q_gram_total[OF assms step]
    show "f_dist_total d = f_dist_total q_gram_f_dist" and "distinct (map fst d)" by simp_all
  qed
qed

lemma ledger_example_first_step:
  "harden_q_gram counter_rng
     (Some [(''th'', [(4, {''he'', ''er'', ''re''}), (9, {''in'', ''qu'', ''zx''})])])
     ''th'' ({''th'', ''er'', ''xy''}, [(''th'', 2), (''er'', 1), (''xy'', 1), (''he'', 1)], 0)
   = Inr ({''th4'', ''er'', ''xy''},
          [(''th'', 1), (''er'', 1), (''xy'', 1), (''he'', 1), (''th4'', 1)], 1)"
  by (auto simp add: harden_q_gram_def q_gram_dice_sim_def select_qualifier_def choice_def
      counter_rng_def str_nat_4 update_f_dist_def Let_def)

lemma ledger_example_second_step:
  "harden_q_gram counter_rng
     (Some [(''th'', [(4, {''he'', ''er'', ''re''}), (9, {''in'', ''qu'', ''zx''})])])
     ''th'' ({''th'', ''he''},
             [(''th'', 1), (''er'', 1), (''xy'', 1), (''he'', 1), (''th4'', 1)], 1)
   = Inr ({''th4'', ''he''}, [(''er'', 1), (''xy'', 1), (''he'', 1), (''th4'', 2)], 2)"
  by (auto simp add: harden_q_gram_def q_gram_dice_sim_def select_qualifier_def choice_def
      counter_rng_def str_nat_4 update_f_dist_def Let_def)

lemma ledger_example_run:
  "harden_with_vah_ref_sets counter_rng sorted_list_of_set
     \<lparr>secret_seed = 0, vuln_q_grams = {''th''}, non_vuln_q_grams = [], l_r = 3,
      indexed_ref_sets =
        Some [(''th'', [(4, {''he'', ''er'', ''re''}), (9, {''in'', ''qu'', ''zx''})])]\<rparr>
     [(''s1'', {''th'', ''er'', ''xy''}), (''s2'', {''th'', ''he''})]
     [(''th'', 2), (''er'', 1), (''xy'', 1), (''he'', 1)] 5
   = Inr ([(''s1'', {''th4'', ''er'', ''xy''}), (''s2'', {''th4'', ''he''})],
          [(''er'', 1), (''xy'', 1), (''he'', 1), (''th4'', 2)], 2)"
proof -
  have seed: "rng_seed counter_rng 0 = 0" by (simp add: counter_rng_def)
  have inter1: "{''th'', ''er'', ''xy''} \<inter> {''th''} = {''th''}" by auto
  have inter2: "{''th'', ''he''} \<inter> {''th''} = {''th''}" by auto
  show ?thesis
    unfolding harden_with_vah_ref_sets_def
    by (simp add: seed inter1 inter2 ledger_example_first_step
        ledger_example_second_step[unfolded One_nat_def])
qed

theorem harden_ledger_conserved_witness:
  "distinct (map fst [(''th'', 2::int), (''er'', 1), (''xy'', 1), (''he'', 1)])
   \<and> iter_ok sorted_list_of_set \<and> finite {''th''} \<and> length ''th'' = 2
   \<and> harden_with_vah_ref_sets counter_rng sorted_list_of_set
        \<lparr>secret_seed = 0, vuln_q_grams = {''th''}, non_vuln_q_grams = [], l_r = 3,
         indexed_ref_sets =
           Some [(''th'', [(4, {''he'', ''er'', ''re''}), (9, {''in'', ''qu'', ''zx''})])]\<rparr>
        [(''s1'', {''th'', ''er'', ''xy''}), (''s2'', {''th'', ''he''})]
        [(''th'', 2), (''er'', 1), (''xy'', 1), (''he'', 1)] 5
       = Inr ([(''s1'', {''th4'', ''er'', ''xy''}), (''s2'', {''th4'', ''he''})],
              [(''er'', 1), (''xy'', 1), (''he'', 1), (''th4'', 2)], 2)
   \<and> f_dist_total [(''er'', 1), (''xy'', 1), (''he'', 1), (''th4'', 2)]
       = f_dist_total [(''th'', 2), (''er'', 1), (''xy'', 1), (''he'', 1)]
   \<and> f_dist_count [(''er'', 1), (''xy'', 1), (''he'', 1), (''th4'', 2)] ''th''
       = f_dist_count [(''th'', 2), (''er'', 1), (''xy'', 1), (''he'', 1)] ''th'' - 2
   \<and> map_of [(''er'', 1::int), (''xy'', 1), (''he'', 1), (''th4'', 2)] ''th'' \<noteq> Some 0
   \<and> harden_q_gram counter_rng
        (Some [(''th'', [(4, {''he'', ''er'', ''re''}), (9, {''in'', ''qu'', ''zx''})])])
        ''th'' ({''th'', ''er'', ''xy''}, [(''th'', 2), (''er'', 1), (''xy'', 1), (''he'', 1)], 0)
       = Inr ({''th4'', ''er'', ''xy''},
              [(''th'', 1), (''er'', 1), (''xy'', 1), (''he'', 1), (''th4'', 1)], 1)
   \<and> map_of [(''th'', 1::int), (''er'', 1), (''xy'', 1), (''he'', 1), (''th4'', 1)] ''th''
       = Some 1
   \<and> f_dist_total [(''th'', 1), (''er'', 1), (''xy'', 1), (''he'', 1), (''th4'', 1)]
       = f_dist_total [(''th'', 2), (''er'', 1), (''xy'', 1), (''he'', 1)]
   \<and> harden_q_gram counter_rng
        (Some [(''th'', [(4, {''he'', ''er'', ''re''}), (9, {''in'', ''qu'', ''zx''})])])
        ''th'' ({''th'', ''he''},
                [(''th'', 1), (''er'', 1), (''xy'', 1), (''he'', 1), (''th4'', 1)], 1)
       = Inr ({''th4'', ''he''}, [(''er'', 1), (''xy'', 1), (''he'', 1), (''th4'', 2)], 2)
   \<and> map_of [(''er'', 1::int), (''xy'', 1), (''he'', 1), (''th4'', 2)] ''th'' = None
   \<and> f_dist_total [(''er'', 1), (''xy'', 1), (''he'', 1), (''th4'', 2)]
       = f_dist_total [(''th'', 1), (''er'', 1), (''xy'', 1), (''he'', 1), (''th4'', 1)]"
proof -
  let ?T = "[(''th'', [(4::nat, {''he'', ''er'', ''re''}), (9, {''in'', ''qu'', ''zx''})])]"
  let ?self = "\<lparr>secret_seed = 0, vuln_q_grams = {''th''}, non_vuln_q_grams = [], l_r = 3,
         indexed_ref_sets = Some ?T\<rparr>"
  let ?D = "[(''s1'', {''th'', ''er'', ''xy''}), (''s2'', {''th'', ''he''})]"
  let ?F = "[(''th'', 2::int), (''er'', 1), (''xy'', 1), (''he'', 1)]"
  let ?F1 = "[(''th'', 1::int), (''er'', 1), (''xy'', 1), (''he'', 1), (''th4'', 1)]"
  let ?F2 = "[(''er'', 1::int), (''xy'', 1), (''he'', 1), (''th4'', 2)]"
  have dist: "distinct (map fst ?F)" by simp
  have dist1: "distinct (map fst ?F1)" by simp
  have fin: "finite (vuln_q_grams ?self)" by simp
  have fin': "finite {''th''}" by simp
  have len: "\<forall>v\<in>vuln_q_grams ?self. length v = 2" by simp
  have len': "length ''th'' = 2" by simp
  have mem: "''th'' \<in> vuln_q_grams ?self" by simp
  have occ: "\<exists>rec\<in>set ?D. ''th'' \<in> snd rec" by simp
  have n_occ: "int (length (filter (\<lambda>rec. ''th'' \<in> snd rec) ?D)) = 2" by simp
  note run_part = mp[OF conjunct1[OF harden_ledger_conserved[OF dist]] ledger_example_run]
  have tot: "f_dist_total ?F2 = f_dist_total ?F" by (rule conjunct1[OF run_part])
  note per_q = bspec[OF mp[OF mp[OF mp[OF conjunct2[OF conjunct2[OF run_part]]
      iter_ok_sorted_list_of_set] fin] len] mem]
  have cnt: "f_dist_count ?F2 ''th'' = f_dist_count ?F ''th'' - 2"
    using conjunct1[OF per_q] unfolding n_occ .
  have nz: "map_of ?F2 ''th'' \<noteq> Some 0"
    by (rule mp[OF conjunct1[OF conjunct2[OF per_q]] occ])
  note s1 = mp[OF conjunct2[OF harden_ledger_conserved[OF dist]] ledger_example_first_step]
  from conjunct1[OF s1] obtain c idx where
    c: "map_of ?F ''th'' = Some c" and
    v: "map_of ?F1 ''th'' = (if c = 1 then None else Some (c - 1))"
    by (elim exE conjE)
  from c have "c = 2" by simp
  with v have kept: "map_of ?F1 ''th'' = Some 1" by simp
  have tot1: "f_dist_total ?F1 = f_dist_total ?F" by (rule conjunct1[OF conjunct2[OF s1]])
  note s2 = mp[OF conjunct2[OF harden_ledger_conserved[OF dist1]] ledger_example_second_step]
  from conjunct1[OF s2] obtain c' idx' where
    c': "map_of ?F1 ''th'' = Some c'" and
    v': "map_of ?F2 ''th'' = (if c' = 1 then None else Some (c' - 1))"
    by (elim exE conjE)
  from c' have "c' = 1" by simp
  with v' have gone: "map_of ?F2 ''th'' = None" by simp
  have tot2: "f_dist_total ?F2 = f_dist_total ?F1" by (rule conjunct1[OF conjunct2[OF s2]])
  show ?thesis
    by (intro conjI)
      (rule dist iter_ok_sorted_list_of_set fin' len' ledger_example_run tot cnt nz
        ledger_example_first_step kept tot1 ledger_example_second_step gone tot2)+
qed

subsection \<open>The reference sets\<close>

lemma py_index_Inr: "py_index xs i = Inr q \<Longrightarrow> q \<in> set xs"
  unfolding py_index_def by (auto split: if_splits)

lemma py_index_Inl: "py_index xs i = Inl e \<Longrightarrow> e = IndexError"
  unfolding py_index_def by (auto split: if_splits)

lemma randint_Inl: "randint R a b g = Inl e \<Longrightarrow> e = ValueError"
  unfolding randint_def by (auto split: if_splits)

lemma pad_loop_result:
  assumes "pad_loop R lr src qs_r g = Some y"
  shows "(\<forall>e. y = Inl e \<longrightarrow> e = ValueError \<or> e = IndexError)
       \<and> (\<forall>qs' g'. y = Inr (qs', g') \<longrightarrow> finite qs_r \<longrightarrow> int (card qs_r) \<le> lr \<longrightarrow>
            finite qs' \<and> int (card qs') = lr \<and> qs_r \<subseteq> qs' \<and> qs' \<subseteq> qs_r \<union> set src)"
proof -
  define P :: "'a pyrandom \<Rightarrow> int \<Rightarrow> qgram list \<Rightarrow> qgram set \<Rightarrow> 'a \<Rightarrow> error + qgram set \<times> 'a \<Rightarrow> bool"
    where "P = (\<lambda>R lr src qs_r g y.
       (\<forall>e. y = Inl e \<longrightarrow> e = ValueError \<or> e = IndexError)
       \<and> (\<forall>qs' g'. y = Inr (qs', g') \<longrightarrow> finite qs_r \<longrightarrow> int (card qs_r) \<le> lr \<longrightarrow>
            finite qs' \<and> int (card qs') = lr \<and> qs_r \<subseteq> qs' \<and> qs' \<subseteq> qs_r \<union> set src))"
  have "P R lr src qs_r g y"
  proof (rule pad_loop.raw_induct[where P = P, OF _ assms])
    fix f :: "'a pyrandom \<Rightarrow> int \<Rightarrow> qgram list \<Rightarrow> qgram set \<Rightarrow> 'a \<Rightarrow> (error + qgram set \<times> 'a) option"
    fix R lr src qs_r g y
    assume ih: "\<And>R lr src qs_r g y. f R lr src qs_r g = Some y \<Longrightarrow> P R lr src qs_r g y"
      and eq: "(if int (card qs_r) < lr
         then case randint R 0 (int (length src) - 1) g of Inl e \<Rightarrow> Some (Inl e)
              | Inr jg \<Rightarrow>
                  (case py_index src (fst jg) of Inl e \<Rightarrow> Some (Inl e)
                   | Inr q \<Rightarrow> f R lr src (insert q qs_r) (snd jg))
         else Some (Inr (qs_r, g))) = Some y"
    show "P R lr src qs_r g y"
    proof (cases "int (card qs_r) < lr")
      case False
      with eq have y: "y = Inr (qs_r, g)" by simp
      from False show ?thesis unfolding y P_def by auto
    next
      case True
      note lt = True
      show ?thesis
      proof (cases "randint R 0 (int (length src) - 1) g")
        case (Inl e)
        with lt eq have "y = Inl e" by simp
        with randint_Inl[OF Inl] show ?thesis unfolding P_def by simp
      next
        case (Inr jg)
        note rj = Inr
        show ?thesis
        proof (cases "py_index src (fst jg)")
          case (Inl e)
          with lt rj eq have "y = Inl e" by simp
          with py_index_Inl[OF Inl] show ?thesis unfolding P_def by simp
        next
          case (Inr q)
          with lt rj eq have rec: "f R lr src (insert q qs_r) (snd jg) = Some y" by simp
          note ih' = ih[OF rec, unfolded P_def]
          have q: "q \<in> set src" by (rule py_index_Inr[OF Inr])
          show ?thesis unfolding P_def
          proof (intro conjI allI impI)
            fix e assume "y = Inl e"
            with ih' show "e = ValueError \<or> e = IndexError" by blast
          next
            fix qs' g' assume y: "y = Inr (qs', g')" and fin: "finite qs_r"
              and le: "int (card qs_r) \<le> lr"
            have fin': "finite (insert q qs_r)" using fin by simp
            have "card (insert q qs_r) \<le> Suc (card qs_r)" using fin by (simp add: card_insert_if)
            with lt have le': "int (card (insert q qs_r)) \<le> lr" by simp
            from ih' y fin' le' have
              r: "finite qs' \<and> int (card qs') = lr \<and> insert q qs_r \<subseteq> qs'
                  \<and> qs' \<subseteq> insert q qs_r \<union> set src"
              by blast
            from r show "finite qs'" by simp
            from r show "int (card qs') = lr" by simp
            from r show "qs_r \<subseteq> qs'" by blast
            from r q show "qs' \<subseteq> qs_r \<union> set src" by blast
          qed
        qed
      qed
    qed
  qed
  then show ?thesis unfolding P_def .
qed

lemma make_ref_set_result:
  assumes pos: "0 < lr" and run: "make_ref_set R lr pool non_vuln i cnt g = Some y"
  shows "(\<forall>e. y = Inl e \<longrightarrow> e = ValueError \<or> e = IndexError)
       \<and> (\<forall>qs' g'. y = Inr (qs', g') \<longrightarrow> finite qs' \<and> int (card qs') = lr)"
proof -
  define chunk where "chunk = set (take (nat lr) (drop i pool))"
  have fin: "finite chunk" unfolding chunk_def by simp
  have "card chunk \<le> length (take (nat lr) (drop i pool))"
    unfolding chunk_def by (rule card_length)
  also have "\<dots> \<le> nat lr" by simp
  finally have le: "int (card chunk) \<le> lr" using pos by simp
  define padded where "padded =
     (if int (card chunk) < lr \<and> cnt > 0 then pad_loop R lr pool chunk g
      else if int (card chunk) < lr \<and> cnt = 0 then pad_loop R lr non_vuln chunk g
      else Some (Inr (chunk, g)))"
  have run': "(case padded of None \<Rightarrow> None | Some (Inl e) \<Rightarrow> Some (Inl e)
      | Some (Inr (qs_r', g')) \<Rightarrow>
          if int (card qs_r') = lr then Some (Inr (qs_r', g'))
          else Some (Inl (AssertionError
                 ''Length of the reference set does not match the expected length''))) = Some y"
    using run unfolding make_ref_set_def Let_def chunk_def[symmetric] padded_def[symmetric] .
  then obtain z where z: "padded = Some z" by (cases padded) auto
  have good: "(\<forall>e. z = Inl e \<longrightarrow> e = ValueError \<or> e = IndexError)
       \<and> (\<forall>qs' g'. z = Inr (qs', g') \<longrightarrow> finite qs' \<and> int (card qs') = lr)"
  proof (cases "int (card chunk) < lr")
    case True
    then obtain src where "pad_loop R lr src chunk g = Some z"
      using z unfolding padded_def by (cases "cnt > 0") auto
    from pad_loop_result[OF this] fin le show ?thesis by blast
  next
    case False
    with z have "z = Inr (chunk, g)" unfolding padded_def by simp
    with False le fin show ?thesis by auto
  qed
  show ?thesis
  proof (cases z)
    case (Inl e)
    with run' z have "y = Inl e" by simp
    with good Inl show ?thesis by simp
  next
    case (Inr p)
    obtain qs1 g1 where p: "p = (qs1, g1)" by (cases p)
    from good Inr p have c: "finite qs1" "int (card qs1) = lr" by simp_all
    with run' z Inr p have "y = Inr (qs1, g1)" by simp
    with c show ?thesis by simp
  qed
qed

lemma ref_sets_loop_result:
  assumes pos: "0 < lr"
  shows "ref_sets_loop R lr pool non_vuln starts (cnt, sets, g) = Some y \<Longrightarrow>
     (\<forall>e. y = Inl e \<longrightarrow> e = ValueError \<or> e = IndexError)
   \<and> (\<forall>cnt' sets' g'. y = Inr (cnt', sets', g') \<longrightarrow>
         cnt' = cnt + length starts
       \<and> (\<exists>new. sets' = sets @ new \<and> length new = length starts
             \<and> (\<forall>s\<in>set new. finite s \<and> int (card s) = lr)))"
proof (induction starts arbitrary: cnt sets g)
  case Nil
  then show ?case by auto
next
  case (Cons i starts)
  from Cons.prems obtain z where z: "make_ref_set R lr pool non_vuln i cnt g = Some z"
    by (cases "make_ref_set R lr pool non_vuln i cnt g") auto
  note m = make_ref_set_result[OF pos z]
  show ?case
  proof (cases z)
    case (Inl e)
    with Cons.prems z have "y = Inl e" by simp
    with m Inl show ?thesis by simp
  next
    case (Inr p)
    obtain qs_r g1 where p: "p = (qs_r, g1)" by (cases p)
    from m Inr p have good: "finite qs_r" "int (card qs_r) = lr" by simp_all
    from Cons.prems z Inr p have
      rest: "ref_sets_loop R lr pool non_vuln starts (cnt + 1, sets @ [qs_r], g1) = Some y"
      by simp
    note ih = Cons.IH[OF rest]
    show ?thesis
    proof (intro conjI allI impI)
      fix e assume "y = Inl e"
      with ih show "e = ValueError \<or> e = IndexError" by blast
    next
      fix cnt' sets' g' assume y: "y = Inr (cnt', sets', g')"
      with ih have c: "cnt' = cnt + 1 + length starts" by blast
      from ih y obtain new where
        n: "sets' = (sets @ [qs_r]) @ new" "length new = length starts"
           "\<forall>s\<in>set new. finite s \<and> int (card s) = lr"
        by blast
      from c show "cnt' = cnt + length (i # starts)" by simp
      have "sets' = sets @ (qs_r # new) \<and> length (qs_r # new) = length (i # starts)
              \<and> (\<forall>s\<in>set (qs_r # new). finite s \<and> int (card s) = lr)"
        using n good by simp
      then show "\<exists>new. sets' = sets @ new \<and> length new = length (i # starts)
             \<and> (\<forall>s\<in>set new. finite s \<and> int (card s) = lr)" by blast
    qed
  qed
qed

lemma ref_sets_for_pool_result:
  assumes "ref_sets_for_pool R lr pool non_vuln g = Some y"
  shows "(\<forall>e. y = Inl e \<longrightarrow> e = ValueError \<or> e = IndexError)
   \<and> (\<forall>cnt sets g'. y = Inr (cnt, sets, g') \<longrightarrow>
         cnt = length sets \<and> (\<forall>s\<in>set sets. finite s \<and> int (card s) = lr))"
proof (cases "0 < lr")
  case True
  then have "py_range_step (length pool) lr
      = Inr (map (\<lambda>k. k * nat lr) [0 ..< (length pool + nat lr - 1) div nat lr])"
    unfolding py_range_step_def by simp
  with assms have "ref_sets_loop R lr pool non_vuln
      (map (\<lambda>k. k * nat lr) [0 ..< (length pool + nat lr - 1) div nat lr]) (0, [], g) = Some y"
    unfolding ref_sets_for_pool_def by simp
  from ref_sets_loop_result[OF True this] show ?thesis by auto
next
  case False
  show ?thesis
  proof (cases "lr = 0")
    case True
    with assms have "y = Inl ValueError"
      unfolding ref_sets_for_pool_def py_range_step_def by simp
    then show ?thesis by simp
  next
    case nz: False
    with False assms have "y = Inr (0, [], g)"
      unfolding ref_sets_for_pool_def py_range_step_def by simp
    then show ?thesis by simp
  qed
qed

lemma set_update_subset: "set (AList.update k v al) \<subseteq> insert (k, v) (set al)"
  by (induction al) auto

lemma reference_sets_loop_result:
  "reference_sets_loop R iter lr non_vuln co (reference_sets, total_count, g) = Some y \<Longrightarrow>
     (\<forall>e. y = Inl e \<longrightarrow> e = ValueError \<or> e = IndexError)
   \<and> (\<forall>reference_sets' total' g'. y = Inr (reference_sets', total', g') \<longrightarrow>
         (\<forall>entry\<in>set reference_sets. \<forall>s\<in>set (snd entry). finite s \<and> int (card s) = lr) \<longrightarrow>
         (\<forall>entry\<in>set reference_sets'. \<forall>s\<in>set (snd entry). finite s \<and> int (card s) = lr))"
proof (induction co arbitrary: reference_sets total_count g)
  case Nil
  then show ?case by auto
next
  case (Cons entry co)
  obtain q_v pool where entry: "entry = (q_v, pool)" by (cases entry)
  from Cons.prems obtain z where z: "ref_sets_for_pool R lr (iter pool) non_vuln g = Some z"
    unfolding entry by (cases "ref_sets_for_pool R lr (iter pool) non_vuln g") auto
  note p = ref_sets_for_pool_result[OF z]
  show ?case
  proof (cases z)
    case (Inl e)
    with Cons.prems z have "y = Inl e" unfolding entry by simp
    with p Inl show ?thesis by simp
  next
    case (Inr t)
    obtain cnt sets g1 where t: "t = (cnt, sets, g1)" by (cases t)
    from p Inr t have good: "\<forall>s\<in>set sets. finite s \<and> int (card s) = lr" by simp
    from Cons.prems z Inr t have rest:
      "reference_sets_loop R iter lr non_vuln co
         (AList.update q_v sets reference_sets, total_count + cnt, g1) = Some y"
      unfolding entry by simp
    note ih = Cons.IH[OF rest]
    show ?thesis
    proof (intro conjI allI impI)
      fix e assume "y = Inl e"
      with ih show "e = ValueError \<or> e = IndexError" by blast
    next
      fix reference_sets' total' g'
      assume y: "y = Inr (reference_sets', total', g')"
        and inv: "\<forall>entry\<in>set reference_sets. \<forall>s\<in>set (snd entry). finite s \<and> int (card s) = lr"
      have "\<forall>entry\<in>set (AList.update q_v sets reference_sets).
              \<forall>s\<in>set (snd entry). finite s \<and> int (card s) = lr"
        using set_update_subset[of q_v sets reference_sets] inv good by auto
      with ih y show "\<forall>entry\<in>set reference_sets'. \<forall>s\<in>set (snd entry). finite s \<and> int (card s) = lr"
        by blast
    qed
  qed
qed

lemma co_update_loop_Inl: "co_update_loop qs vs co = Inl e \<Longrightarrow> e = KeyError"
  by (induction vs arbitrary: co) (auto split: option.splits)

lemma co_occurrence_loop_Inl: "co_occurrence_loop iter Qv db co = Inl e \<Longrightarrow> e = KeyError"
proof (induction db arbitrary: co)
  case Nil
  then show ?case by simp
next
  case (Cons rec db)
  obtain rec_id qs where rec: "rec = (rec_id, qs)" by (cases rec)
  from Cons show ?case unfolding rec
    by (auto simp add: Let_def split: if_splits sum.splits dest: co_update_loop_Inl)
qed

lemma build_reference_sets_result:
  assumes "build_reference_sets R iter self pub = Some y"
  shows "(\<forall>e. y = Inl e \<longrightarrow> e = ValueError \<or> e = IndexError \<or> e = KeyError)
   \<and> (\<forall>reference_sets total_count g. y = Inr (reference_sets, total_count, g) \<longrightarrow>
         (\<forall>entry\<in>set reference_sets. \<forall>s\<in>set (snd entry). finite s \<and> int (card s) = l_r self))"
proof (cases "co_occurrence_pools iter (vuln_q_grams self) pub")
  case (Inl e)
  with assms have "y = Inl e" unfolding build_reference_sets_def by simp
  moreover from Inl have "e = KeyError"
    unfolding co_occurrence_pools_def by (rule co_occurrence_loop_Inl)
  ultimately show ?thesis by simp
next
  case (Inr co)
  with assms have "reference_sets_loop R iter (l_r self) (non_vuln_q_grams self) co
      ([], 0, rng_seed R (secret_seed self)) = Some y"
    unfolding build_reference_sets_def by simp
  from reference_sets_loop_result[OF this] show ?thesis by auto
qed

lemma snd_set_update_subset: "snd ` set (AList.update k v al) \<subseteq> insert v (snd ` set al)"
proof
  fix x assume "x \<in> snd ` set (AList.update k v al)"
  then obtain p where p: "p \<in> set (AList.update k v al)" and x: "x = snd p" by blast
  from p set_update_subset[of k v al] have "p = (k, v) \<or> p \<in> set al" by blast
  with x show "x \<in> insert v (snd ` set al)" by auto
qed

lemma assign_inner_sets:
  "assign_inner sets idxs inner = Inr (inner', idxs') \<Longrightarrow>
     snd ` set inner' \<subseteq> snd ` set inner \<union> set sets"
proof (induction sets arbitrary: idxs inner)
  case Nil
  then show ?case by simp
next
  case (Cons s sets)
  from Cons.prems have
    rest: "assign_inner sets (butlast idxs) (AList.update (last idxs) s inner) = Inr (inner', idxs')"
    by (simp split: if_splits)
  have a: "snd ` set inner' \<subseteq> snd ` set (AList.update (last idxs) s inner) \<union> set sets"
    by (rule Cons.IH[OF rest])
  have b: "snd ` set (AList.update (last idxs) s inner) \<subseteq> insert s (snd ` set inner)"
    by (rule snd_set_update_subset)
  have c: "set (s # sets) = insert s (set sets)" by simp
  show ?case unfolding c using a b by blast
qed

lemma assign_inner_Inl: "assign_inner sets idxs inner = Inl e \<Longrightarrow> e = IndexError"
  by (induction sets arbitrary: idxs inner) (simp_all split: if_splits)

lemma table_ref_sets_set:
  "set (table_ref_sets t) = (\<Union>entry\<in>set t. snd ` set (snd entry))"
  unfolding table_ref_sets_def by simp

lemma table_ref_sets_update:
  "set (table_ref_sets (AList.update q inner tbl)) \<subseteq> set (table_ref_sets tbl) \<union> snd ` set inner"
proof
  fix x assume "x \<in> set (table_ref_sets (AList.update q inner tbl))"
  then obtain entry where e: "entry \<in> set (AList.update q inner tbl)"
    and x: "x \<in> snd ` set (snd entry)"
    unfolding table_ref_sets_set by blast
  from e set_update_subset[of q inner tbl] have "entry = (q, inner) \<or> entry \<in> set tbl" by blast
  then show "x \<in> set (table_ref_sets tbl) \<union> snd ` set inner"
  proof
    assume "entry = (q, inner)"
    with x show ?thesis by simp
  next
    assume "entry \<in> set tbl"
    with x have "x \<in> set (table_ref_sets tbl)" unfolding table_ref_sets_set by blast
    then show ?thesis by simp
  qed
qed

lemma assign_loop_sets:
  "assign_loop reference_sets idxs tbl = Inr tbl' \<Longrightarrow>
     set (table_ref_sets tbl')
       \<subseteq> set (table_ref_sets tbl) \<union> (\<Union>entry\<in>set reference_sets. set (snd entry))"
proof (induction reference_sets arbitrary: idxs tbl)
  case Nil
  then show ?case by simp
next
  case (Cons entry reference_sets)
  obtain q_v sets where entry: "entry = (q_v, sets)" by (cases entry)
  from Cons.prems obtain inner idxs1 where
    inner: "assign_inner sets idxs [] = Inr (inner, idxs1)" and
    rest: "assign_loop reference_sets idxs1 (AList.update q_v inner tbl) = Inr tbl'"
    unfolding entry by (simp split: sum.splits prod.splits)
  from assign_inner_sets[OF inner] have a: "snd ` set inner \<subseteq> set sets" by simp
  have b: "set (table_ref_sets (AList.update q_v inner tbl))
      \<subseteq> set (table_ref_sets tbl) \<union> set sets"
    using table_ref_sets_update[of q_v inner tbl] a by blast
  have c: "(\<Union>e\<in>set (entry # reference_sets). set (snd e))
      = set sets \<union> (\<Union>e\<in>set reference_sets. set (snd e))"
    unfolding entry by simp
  have d: "set (table_ref_sets tbl')
      \<subseteq> set (table_ref_sets (AList.update q_v inner tbl))
          \<union> (\<Union>e\<in>set reference_sets. set (snd e))"
    by (rule Cons.IH[OF rest])
  show ?case unfolding c using d b by blast
qed

lemma assign_loop_Inl: "assign_loop reference_sets idxs tbl = Inl e \<Longrightarrow> e = IndexError"
proof (induction reference_sets arbitrary: idxs tbl)
  case Nil
  then show ?case by simp
next
  case (Cons entry reference_sets)
  obtain q_v sets where entry: "entry = (q_v, sets)" by (cases entry)
  show ?case
  proof (cases "assign_inner sets idxs []")
    case (Inl e')
    with Cons.prems have "e = e'" unfolding entry by simp
    with assign_inner_Inl[OF Inl] show ?thesis by simp
  next
    case (Inr p)
    obtain inner idxs1 where p: "p = (inner, idxs1)" by (cases p)
    from Cons.prems Inr p have
      "assign_loop reference_sets idxs1 (AList.update q_v inner tbl) = Inl e"
      unfolding entry by simp
    then show ?thesis by (rule Cons.IH)
  qed
qed

lemma assertion_messages_differ:
  "AssertionError ''Length of the reference set does not match the expected length''
     \<noteq> AssertionError ''Mismatch in reference sets generated''"
  by simp

lemma index_reference_sets_cases:
  obtains (sample_fails) "index_reference_sets R Qv reference_sets total_count g = Inl ValueError"
  | (assign_fails) "index_reference_sets R Qv reference_sets total_count g = Inl IndexError"
  | (mismatch) "index_reference_sets R Qv reference_sets total_count g
                  = Inl (AssertionError ''Mismatch in reference sets generated'')"
  | (returns) tbl g' idxs where
      "index_reference_sets R Qv reference_sets total_count g = Inr (tbl, g')"
      "assign_loop reference_sets idxs [] = Inr tbl"
proof (cases "sample_range R (total_count * card Qv) total_count g")
  case (Inl e')
  then have "e' = ValueError" unfolding sample_range_def by (simp split: if_splits)
  with Inl have "index_reference_sets R Qv reference_sets total_count g = Inl ValueError"
    unfolding index_reference_sets_def by simp
  then show ?thesis by (rule sample_fails)
next
  case (Inr p)
  obtain random_indices g1 where p: "p = (random_indices, g1)" by (cases p)
  obtain shuffled g2 where sh: "rng_shuffle R random_indices g1 = (shuffled, g2)"
    by (cases "rng_shuffle R random_indices g1")
  show ?thesis
  proof (cases "assign_loop reference_sets shuffled []")
    case (Inl e')
    from assign_loop_Inl[OF Inl] have "e' = IndexError" .
    with Inl Inr p sh have "index_reference_sets R Qv reference_sets total_count g = Inl IndexError"
      unfolding index_reference_sets_def by simp
    then show ?thesis by (rule assign_fails)
  next
    case r: (Inr t)
    show ?thesis
    proof (cases "length t = length reference_sets \<and> length reference_sets = card Qv")
      case True
      with r Inr p sh have "index_reference_sets R Qv reference_sets total_count g = Inr (t, g2)"
        unfolding index_reference_sets_def by simp
      then show ?thesis using r by (rule returns)
    next
      case False
      with r Inr p sh have "index_reference_sets R Qv reference_sets total_count g
                  = Inl (AssertionError ''Mismatch in reference sets generated'')"
        unfolding index_reference_sets_def by (simp only: sum.case prod.case if_False)
      then show ?thesis by (rule mismatch)
    qed
  qed
qed

lemma index_reference_sets_no_size_assertion:
  "index_reference_sets R Qv reference_sets total_count g
     \<noteq> Inl (AssertionError ''Length of the reference set does not match the expected length'')"
proof (cases rule: index_reference_sets_cases[of R Qv reference_sets total_count g])
  case sample_fails
  then show ?thesis by (simp only: sum.inject error.distinct simp_thms)
next
  case assign_fails
  then show ?thesis by (simp only: sum.inject error.distinct simp_thms)
next
  case mismatch
  then show ?thesis using assertion_messages_differ
    by (simp only: sum.inject) (rule not_sym)
next
  case (returns tbl g' idxs)
  then show ?thesis by (simp only: sum.distinct simp_thms)
qed

lemma index_reference_sets_Inr:
  assumes "index_reference_sets R Qv reference_sets total_count g = Inr (tbl, g')"
  shows "set (table_ref_sets tbl) \<subseteq> (\<Union>entry\<in>set reference_sets. set (snd entry))"
proof (cases rule: index_reference_sets_cases[of R Qv reference_sets total_count g])
  case sample_fails
  with assms show ?thesis by simp
next
  case assign_fails
  with assms show ?thesis by simp
next
  case mismatch
  with assms show ?thesis by (simp only: sum.distinct)
next
  case (returns t g2 idxs)
  with assms have "t = tbl" by simp
  with assign_loop_sets[OF returns(2)] show ?thesis
    unfolding table_ref_sets_def by simp
qed

lemma padded_example_pools:
  "co_occurrence_pools sorted_list_of_set {''th''}
     [(''p1'', {''th'', ''he'', ''er'', ''re'', ''in''})]
   = Inr [(''th'', {''he'', ''er'', ''re'', ''in''})]"
proof -
  have inter: "{''th'', ''he'', ''er'', ''re'', ''in''} \<inter> {''th''} = {''th''}" by auto
  have diff: "{''th'', ''he'', ''er'', ''re'', ''in''} - {''th''} = {''he'', ''er'', ''re'', ''in''}"
    by auto
  show ?thesis
    unfolding co_occurrence_pools_def by (simp add: inter diff)
qed

lemma padded_example_order:
  "sorted_list_of_set {''he'', ''er'', ''re'', ''in''} = [''er'', ''he'', ''in'', ''re'']"
  by simp

lemma padded_example_pad:
  "pad_loop counter_rng 3 [''er'', ''he'', ''in'', ''re''] {''re''} 7
     = Some (Inr ({''re'', ''er'', ''he''}, 10))"
proof -
  have r7: "randint counter_rng 0 3 7 = Inr (3, 8)"
    by (simp add: randint_def counter_rng_def)
  have r8: "randint counter_rng 0 3 8 = Inr (0, 9)"
    by (simp add: randint_def counter_rng_def)
  have r9: "randint counter_rng 0 3 9 = Inr (1, 10)"
    by (simp add: randint_def counter_rng_def)
  have s3: "pad_loop counter_rng 3 [''er'', ''he'', ''in'', ''re''] {''re'', ''er'', ''he''} 10
     = Some (Inr ({''re'', ''er'', ''he''}, 10))"
    by (subst pad_loop.simps) simp
  have i2: "insert ''he'' {''re'', ''er''} = {''re'', ''er'', ''he''}" by auto
  have s2: "pad_loop counter_rng 3 [''er'', ''he'', ''in'', ''re''] {''re'', ''er''} 9
     = Some (Inr ({''re'', ''er'', ''he''}, 10))"
    by (subst pad_loop.simps) (simp add: r9 py_index_def i2 s3)
  have i1: "insert ''er'' {''re''} = {''re'', ''er''}" by auto
  have s1: "pad_loop counter_rng 3 [''er'', ''he'', ''in'', ''re''] {''re''} 8
     = Some (Inr ({''re'', ''er'', ''he''}, 10))"
    by (subst pad_loop.simps) (simp add: r8 py_index_def i1 s2)
  show ?thesis
    by (subst pad_loop.simps) (simp add: r7 py_index_def s1)
qed

lemma padded_example_for_pool:
  "ref_sets_for_pool counter_rng 3 [''er'', ''he'', ''in'', ''re''] [''zz'', ''yy''] 7
     = Some (Inr (2, [{''er'', ''he'', ''in''}, {''re'', ''er'', ''he''}], 10))"
proof -
  have starts: "py_range_step (length [''er'', ''he'', ''in'', ''re'']) 3 = Inr [0, 3]"
    by (simp add: py_range_step_def upt_rec)
  have first: "make_ref_set counter_rng 3 [''er'', ''he'', ''in'', ''re''] [''zz'', ''yy''] 0 0 7
     = Some (Inr ({''er'', ''he'', ''in''}, 7))"
    by (simp add: make_ref_set_def Let_def)
  have second: "make_ref_set counter_rng 3 [''er'', ''he'', ''in'', ''re''] [''zz'', ''yy''] 3 1 7
     = Some (Inr ({''re'', ''er'', ''he''}, 10))"
    by (simp add: make_ref_set_def Let_def padded_example_pad)
  show ?thesis
    unfolding ref_sets_for_pool_def starts by (simp add: first second[unfolded One_nat_def])
qed

lemma padded_example_generate:
  "generate_reference_sets counter_rng sorted_list_of_set
      (VAH_init 7 {''th''} [''zz'', ''yy''] 3)
      [(''p1'', {''th'', ''he'', ''er'', ''re'', ''in''})] 0
     = Some (Inr ((VAH_init 7 {''th''} [''zz'', ''yy''] 3)
          \<lparr>indexed_ref_sets :=
              Some [(''th'', [(0, {''er'', ''he'', ''in''}), (1, {''re'', ''er'', ''he''})])]\<rparr>, 10))"
proof -
  have seed: "rng_seed counter_rng 7 = 7" by (simp add: counter_rng_def)
  have build: "build_reference_sets counter_rng sorted_list_of_set
      (VAH_init 7 {''th''} [''zz'', ''yy''] 3)
      [(''p1'', {''th'', ''he'', ''er'', ''re'', ''in''})]
    = Some (Inr ([(''th'', [{''er'', ''he'', ''in''}, {''re'', ''er'', ''he''}])], 2, 10))"
    unfolding build_reference_sets_def
    by (simp add: VAH_init_def padded_example_pools padded_example_order seed
        padded_example_for_pool)
  have index: "index_reference_sets counter_rng {''th''}
      [(''th'', [{''er'', ''he'', ''in''}, {''re'', ''er'', ''he''}])] 2 10
    = Inr ([(''th'', [(0, {''er'', ''he'', ''in''}), (1, {''re'', ''er'', ''he''})])], 10)"
    unfolding index_reference_sets_def
    by (simp add: sample_range_def counter_rng_def upt_rec)
  show ?thesis
    unfolding generate_reference_sets_def build
    by (simp add: VAH_init_def index)
qed

text \<open>
  Claim C6. The assertion on the size of a reference set never fails, whatever the
  generator, the enumeration of the sets and the inputs: no run of
  \<^verbatim>\<open>generate_reference_sets\<close> ends in that assertion error. Every reference set that
  the sampler emits, from a full chunk or padded, and so every reference set of the table
  of a run that returns, is finite with exactly \<open>l_r\<close> members.
\<close>

theorem reference_sets_have_size_l_r:
  "generate_reference_sets R iter self pub_db_q_gram_sets g0
      \<noteq> Some (Inl (AssertionError
            ''Length of the reference set does not match the expected length''))
   \<and> (build_reference_sets R iter self pub_db_q_gram_sets
         = Some (Inr (reference_sets, total_count, g)) \<longrightarrow>
       (\<forall>entry\<in>set reference_sets. \<forall>s\<in>set (snd entry). finite s \<and> int (card s) = l_r self))
   \<and> (generate_reference_sets R iter self pub_db_q_gram_sets g0 = Some (Inr (self', g')) \<longrightarrow>
       (\<exists>tbl. indexed_ref_sets self' = Some tbl
          \<and> (\<forall>s\<in>set (table_ref_sets tbl). finite s \<and> int (card s) = l_r self)))"
proof (intro conjI impI)
  show "generate_reference_sets R iter self pub_db_q_gram_sets g0
      \<noteq> Some (Inl (AssertionError
            ''Length of the reference set does not match the expected length''))"
  proof
    assume a: "generate_reference_sets R iter self pub_db_q_gram_sets g0
      = Some (Inl (AssertionError
            ''Length of the reference set does not match the expected length''))"
    then obtain y where y: "build_reference_sets R iter self pub_db_q_gram_sets = Some y"
      unfolding generate_reference_sets_def
      by (cases "build_reference_sets R iter self pub_db_q_gram_sets") simp_all
    note b = build_reference_sets_result[OF y]
    show False
    proof (cases y)
      case (Inl e)
      with a y have "e = AssertionError
            ''Length of the reference set does not match the expected length''"
        unfolding generate_reference_sets_def by (simp only: option.case sum.case option.inject sum.inject)
      moreover from b Inl have "e = ValueError \<or> e = IndexError \<or> e = KeyError" by blast
      ultimately show False by (simp only: error.distinct simp_thms)
    next
      case (Inr t)
      obtain rs tc g1 where t: "t = (rs, tc, g1)" by (cases t)
      have "index_reference_sets R (vuln_q_grams self) rs tc g1
          = Inl (AssertionError
            ''Length of the reference set does not match the expected length'')"
      proof (cases "index_reference_sets R (vuln_q_grams self) rs tc g1")
        case (Inl e)
        with a y Inr t show ?thesis
          unfolding generate_reference_sets_def
          by (simp only: option.case sum.case prod.case option.inject sum.inject)
      next
        case r: (Inr p)
        obtain tbl g2 where "p = (tbl, g2)" by (cases p)
        with a y Inr t r show ?thesis
          unfolding generate_reference_sets_def
          by (simp only: option.case sum.case prod.case option.inject sum.distinct)
      qed
      with index_reference_sets_no_size_assertion[of R "vuln_q_grams self" rs tc g1]
      show False by (rule notE)
    qed
  qed
next
  assume "build_reference_sets R iter self pub_db_q_gram_sets
         = Some (Inr (reference_sets, total_count, g))"
  from build_reference_sets_result[OF this]
  show "\<forall>entry\<in>set reference_sets. \<forall>s\<in>set (snd entry). finite s \<and> int (card s) = l_r self"
    by blast
next
  assume a: "generate_reference_sets R iter self pub_db_q_gram_sets g0 = Some (Inr (self', g'))"
  then obtain rs tc g1 tbl where
    b: "build_reference_sets R iter self pub_db_q_gram_sets = Some (Inr (rs, tc, g1))" and
    i: "index_reference_sets R (vuln_q_grams self) rs tc g1 = Inr (tbl, g')" and
    s: "self' = self\<lparr>indexed_ref_sets := Some tbl\<rparr>"
    unfolding generate_reference_sets_def
    by (auto split: option.splits sum.splits)
  from build_reference_sets_result[OF b]
  have good: "\<forall>entry\<in>set rs. \<forall>s\<in>set (snd entry). finite s \<and> int (card s) = l_r self"
    by blast
  from index_reference_sets_Inr[OF i]
  have "set (table_ref_sets tbl) \<subseteq> (\<Union>entry\<in>set rs. set (snd entry))" .
  with good have "\<forall>s\<in>set (table_ref_sets tbl). finite s \<and> int (card s) = l_r self" by blast
  with s show "\<exists>tbl. indexed_ref_sets self' = Some tbl
          \<and> (\<forall>s\<in>set (table_ref_sets tbl). finite s \<and> int (card s) = l_r self)"
    by simp
qed

theorem reference_sets_have_size_l_r_witness:
  "generate_reference_sets counter_rng sorted_list_of_set
      (VAH_init 7 {''th''} [''zz'', ''yy''] 3)
      [(''p1'', {''th'', ''he'', ''er'', ''re'', ''in''})] 0
     = Some (Inr ((VAH_init 7 {''th''} [''zz'', ''yy''] 3)
          \<lparr>indexed_ref_sets :=
              Some [(''th'', [(0, {''er'', ''he'', ''in''}), (1, {''re'', ''er'', ''he''})])]\<rparr>, 10))
   \<and> int (card {''er'', ''he'', ''in''}) = 3
   \<and> int (card {''re'', ''er'', ''he''}) = 3"
proof -
  let ?self = "VAH_init 7 {''th''} [''zz'', ''yy''] 3"
  let ?tbl = "[(''th'', [(0::nat, {''er'', ''he'', ''in''}), (1, {''re'', ''er'', ''he''})])]"
  note inst = reference_sets_have_size_l_r[where R = counter_rng and iter = sorted_list_of_set
      and self = ?self and pub_db_q_gram_sets = "[(''p1'', {''th'', ''he'', ''er'', ''re'', ''in''})]"
      and ?g0.0 = 0 and self' = "?self\<lparr>indexed_ref_sets := Some ?tbl\<rparr>" and g' = 10]
  from mp[OF conjunct2[OF conjunct2[OF inst]] padded_example_generate]
  obtain tbl where
    t: "indexed_ref_sets (?self\<lparr>indexed_ref_sets := Some ?tbl\<rparr>) = Some tbl" and
    all: "\<forall>s\<in>set (table_ref_sets tbl). finite s \<and> int (card s) = l_r ?self"
    by (elim exE conjE)
  from t have tbl: "tbl = ?tbl" by simp
  have lr: "l_r ?self = 3" by (simp add: VAH_init_def)
  have m1: "{''er'', ''he'', ''in''} \<in> set (table_ref_sets ?tbl)"
    by (simp add: table_ref_sets_def)
  have m2: "{''re'', ''er'', ''he''} \<in> set (table_ref_sets ?tbl)"
    by (simp add: table_ref_sets_def)
  have c1: "int (card {''er'', ''he'', ''in''}) = 3"
    using bspec[OF all[unfolded tbl lr] m1] by (rule conjunct2)
  have c2: "int (card {''re'', ''er'', ''he''}) = 3"
    using bspec[OF all[unfolded tbl lr] m2] by (rule conjunct2)
  show ?thesis
    by (intro conjI) (rule padded_example_generate c1 c2)+
qed

subsection \<open>The indices of the table\<close>

lemma update_fresh: "k \<notin> fst ` set al \<Longrightarrow> AList.update k v al = al @ [(k, v)]"
  by (induction al) auto

lemma update_present_keys: "k \<in> fst ` set al \<Longrightarrow> map fst (AList.update k v al) = map fst al"
  by (simp add: update_keys)

lemma co_update_loop_keys:
  "co_update_loop qs vs co = Inr co' \<Longrightarrow> map fst co' = map fst co"
proof (induction vs arbitrary: co)
  case Nil
  then show ?case by simp
next
  case (Cons q_v vs)
  from Cons.prems obtain pool where
    p: "map_of co q_v = Some pool" and
    rest: "co_update_loop qs vs (AList.update q_v (pool \<union> (qs - {q_v})) co) = Inr co'"
    by (simp split: option.splits)
  from map_of_SomeD[OF p] have "q_v \<in> fst ` set co" by force
  then have "map fst (AList.update q_v (pool \<union> (qs - {q_v})) co) = map fst co"
    by (rule update_present_keys)
  with Cons.IH[OF rest] show ?case by simp
qed

lemma co_occurrence_loop_keys:
  "co_occurrence_loop iter Qv db co = Inr co' \<Longrightarrow> map fst co' = map fst co"
proof (induction db arbitrary: co)
  case Nil
  then show ?case by simp
next
  case (Cons rec db)
  obtain rec_id qs where rec: "rec = (rec_id, qs)" by (cases rec)
  show ?case
  proof (cases "card (qs \<inter> Qv) > 0")
    case True
    with Cons.prems obtain co1 where
      u: "co_update_loop qs (iter (qs \<inter> Qv)) co = Inr co1" and
      rest: "co_occurrence_loop iter Qv db co1 = Inr co'"
      unfolding rec by (simp add: Let_def split: sum.splits)
    from Cons.IH[OF rest] co_update_loop_keys[OF u] show ?thesis by simp
  next
    case False
    with Cons.prems have "co_occurrence_loop iter Qv db co = Inr co'"
      unfolding rec by (simp add: Let_def)
    then show ?thesis by (rule Cons.IH)
  qed
qed

lemma co_occurrence_pools_keys:
  "co_occurrence_pools iter Qv db = Inr co \<Longrightarrow> map fst co = iter Qv"
  unfolding co_occurrence_pools_def
  by (drule co_occurrence_loop_keys) (simp add: comp_def)

lemma reference_sets_loop_keys:
  "reference_sets_loop R iter lr non_vuln co (reference_sets, total_count, g)
      = Some (Inr (reference_sets', total_count', g')) \<Longrightarrow>
   distinct (map fst reference_sets @ map fst co) \<Longrightarrow>
   total_count = length (concat (map snd reference_sets)) \<Longrightarrow>
     map fst reference_sets' = map fst reference_sets @ map fst co
     \<and> total_count' = length (concat (map snd reference_sets'))"
proof (induction co arbitrary: reference_sets total_count g)
  case Nil
  then show ?case by auto
next
  case (Cons entry co)
  obtain q_v pool where entry: "entry = (q_v, pool)" by (cases entry)
  from Cons.prems(1) obtain cnt sets g1 where
    f: "ref_sets_for_pool R lr (iter pool) non_vuln g = Some (Inr (cnt, sets, g1))" and
    rest: "reference_sets_loop R iter lr non_vuln co
             (AList.update q_v sets reference_sets, total_count + cnt, g1)
           = Some (Inr (reference_sets', total_count', g'))"
    unfolding entry by (simp split: option.splits sum.splits prod.splits)
  from ref_sets_for_pool_result[OF f] have cnt: "cnt = length sets" by simp
  from Cons.prems(2) have fresh: "q_v \<notin> fst ` set reference_sets"
    unfolding entry by auto
  have upd: "AList.update q_v sets reference_sets = reference_sets @ [(q_v, sets)]"
    by (rule update_fresh[OF fresh])
  have d: "distinct (map fst (AList.update q_v sets reference_sets) @ map fst co)"
    using Cons.prems(2) unfolding upd entry by simp
  have t: "total_count + cnt = length (concat (map snd (AList.update q_v sets reference_sets)))"
    unfolding upd using Cons.prems(3) cnt by simp
  from Cons.IH[OF rest d t] show ?case unfolding upd entry by simp
qed

lemma build_reference_sets_keys:
  assumes it: "iter_ok iter" and fin: "finite (vuln_q_grams self)"
    and b: "build_reference_sets R iter self pub = Some (Inr (reference_sets, total_count, g))"
  shows "map fst reference_sets = iter (vuln_q_grams self)"
    and "total_count = length (concat (map snd reference_sets))"
proof -
  from b obtain co where
    co: "co_occurrence_pools iter (vuln_q_grams self) pub = Inr co" and
    l: "reference_sets_loop R iter (l_r self) (non_vuln_q_grams self) co
          ([], 0, rng_seed R (secret_seed self)) = Some (Inr (reference_sets, total_count, g))"
    unfolding build_reference_sets_def by (simp split: sum.splits)
  from co_occurrence_pools_keys[OF co] have keys: "map fst co = iter (vuln_q_grams self)" .
  from it fin have "distinct (iter (vuln_q_grams self))" unfolding iter_ok_def by simp
  with keys have d: "distinct (map fst ([]::(qgram \<times> qgram set list) list) @ map fst co)" by simp
  have z: "(0::nat) = length (concat (map snd ([]::(qgram \<times> qgram set list) list)))" by simp
  from reference_sets_loop_keys[OF l d z] keys
  show "map fst reference_sets = iter (vuln_q_grams self)"
    and "total_count = length (concat (map snd reference_sets))" by simp_all
qed

lemma assign_inner_result:
  "distinct idxs \<Longrightarrow> length sets \<le> length idxs \<Longrightarrow> fst ` set inner \<inter> set idxs = {} \<Longrightarrow>
     assign_inner sets idxs inner
       = Inr (inner @ zip (take (length sets) (rev idxs)) sets,
              rev (drop (length sets) (rev idxs)))"
proof (induction sets arbitrary: idxs inner)
  case Nil
  show ?case by simp
next
  case (Cons s sets)
  from Cons.prems(2) have ne: "idxs \<noteq> []" by auto
  then obtain ys y where idxs: "idxs = ys @ [y]" by (cases idxs rule: rev_cases) auto
  from Cons.prems(3) have fresh: "y \<notin> fst ` set inner" unfolding idxs by auto
  have upd: "AList.update y s inner = inner @ [(y, s)]" by (rule update_fresh[OF fresh])
  have d: "distinct ys" and ny: "y \<notin> set ys" using Cons.prems(1) unfolding idxs by simp_all
  have l: "length sets \<le> length ys" using Cons.prems(2) unfolding idxs by simp
  have f: "fst ` set (inner @ [(y, s)]) \<inter> set ys = {}"
    using Cons.prems(3) ny unfolding idxs by auto
  have "assign_inner (s # sets) idxs inner = assign_inner sets ys (inner @ [(y, s)])"
    unfolding idxs by (simp add: upd)
  also have "\<dots> = Inr ((inner @ [(y, s)]) @ zip (take (length sets) (rev ys)) sets,
              rev (drop (length sets) (rev ys)))"
    by (rule Cons.IH[OF d l f])
  finally show ?case unfolding idxs by simp
qed

lemma table_indices_append:
  "table_indices (tbl @ [(q, inner)]) = table_indices tbl @ map fst inner"
  unfolding table_indices_def by simp

lemma table_ref_sets_append:
  "table_ref_sets (tbl @ [(q, inner)]) = table_ref_sets tbl @ map snd inner"
  unfolding table_ref_sets_def by simp

lemma assign_loop_result:
  "distinct idxs \<Longrightarrow> length (concat (map snd reference_sets)) \<le> length idxs \<Longrightarrow>
   distinct (map fst tbl @ map fst reference_sets) \<Longrightarrow>
     \<exists>tbl'. assign_loop reference_sets idxs tbl = Inr tbl'
       \<and> map fst tbl' = map fst tbl @ map fst reference_sets
       \<and> table_indices tbl'
           = table_indices tbl @ take (length (concat (map snd reference_sets))) (rev idxs)
       \<and> table_ref_sets tbl' = table_ref_sets tbl @ concat (map snd reference_sets)"
proof (induction reference_sets arbitrary: idxs tbl)
  case Nil
  show ?case by simp
next
  case (Cons entry reference_sets)
  obtain q_v sets where entry: "entry = (q_v, sets)" by (cases entry)
  define n where "n = length sets"
  define m where "m = length (concat (map snd reference_sets))"
  define inner where "inner = zip (take n (rev idxs)) sets"
  define idxs1 where "idxs1 = rev (drop n (rev idxs))"
  from Cons.prems(2) have nm: "n + m \<le> length idxs" unfolding entry n_def m_def by simp
  then have nl: "length sets \<le> length idxs" unfolding n_def by simp
  have e: "fst ` set ([]::(nat \<times> qgram set) list) \<inter> set idxs = {}" by simp
  have a: "assign_inner sets idxs [] = Inr (inner, idxs1)"
    using assign_inner_result[OF Cons.prems(1) nl e] unfolding inner_def idxs1_def n_def by simp
  from Cons.prems(3) have fresh: "q_v \<notin> fst ` set tbl" unfolding entry by auto
  have upd: "AList.update q_v inner tbl = tbl @ [(q_v, inner)]" by (rule update_fresh[OF fresh])
  have d1: "distinct idxs1" using Cons.prems(1) unfolding idxs1_def by (simp add: distinct_drop)
  have l1: "length (concat (map snd reference_sets)) \<le> length idxs1"
    using nm unfolding idxs1_def m_def by simp
  have k1: "distinct (map fst (tbl @ [(q_v, inner)]) @ map fst reference_sets)"
    using Cons.prems(3) unfolding entry by simp
  from Cons.IH[OF d1 l1 k1] obtain tbl' where
    r: "assign_loop reference_sets idxs1 (tbl @ [(q_v, inner)]) = Inr tbl'" and
    keys: "map fst tbl' = map fst (tbl @ [(q_v, inner)]) @ map fst reference_sets" and
    ind: "table_indices tbl' = table_indices (tbl @ [(q_v, inner)]) @ take m (rev idxs1)" and
    sets: "table_ref_sets tbl' = table_ref_sets (tbl @ [(q_v, inner)])
             @ concat (map snd reference_sets)"
    unfolding m_def by blast
  have run: "assign_loop (entry # reference_sets) idxs tbl = Inr tbl'"
    unfolding entry by (simp add: a upd r)
  have len: "length (take n (rev idxs)) = length sets" using nl unfolding n_def by simp
  have fi: "map fst inner = take n (rev idxs)" unfolding inner_def using len by simp
  have si: "map snd inner = sets" unfolding inner_def using len by simp
  have tk: "take n (rev idxs) @ take m (rev idxs1) = take (n + m) (rev idxs)"
    unfolding idxs1_def by (simp add: take_add)
  have ind': "table_indices tbl'
      = table_indices tbl @ take (length (concat (map snd (entry # reference_sets)))) (rev idxs)"
    unfolding ind table_indices_append fi entry using tk
    by (simp add: n_def m_def)
  have sets': "table_ref_sets tbl'
      = table_ref_sets tbl @ concat (map snd (entry # reference_sets))"
    unfolding sets table_ref_sets_append si entry by simp
  have keys': "map fst tbl' = map fst tbl @ map fst (entry # reference_sets)"
    unfolding keys entry by simp
  from run keys' ind' sets' show ?case by blast
qed

lemma index_reference_sets_total:
  assumes ok: "pyrandom_ok R" and it: "iter_ok iter" and fin: "finite Qv"
    and keys: "map fst reference_sets = iter Qv"
    and tc: "total_count = length (concat (map snd reference_sets))"
  shows "\<exists>tbl g'. index_reference_sets R Qv reference_sets total_count g = Inr (tbl, g')
      \<and> map fst tbl = iter Qv
      \<and> length tbl = card Qv
      \<and> distinct (table_indices tbl)
      \<and> set (table_indices tbl) \<subseteq> {0 ..< total_count * card Qv}
      \<and> length (table_indices tbl) = total_count
      \<and> table_ref_sets tbl = concat (map snd reference_sets)"
proof -
  from it fin have iq: "set (iter Qv) = Qv" "distinct (iter Qv)"
    unfolding iter_ok_def by simp_all
  have len_keys: "length (iter Qv) = card Qv"
    using distinct_card[OF iq(2)] iq(1) by simp
  have le: "total_count \<le> total_count * card Qv"
  proof (cases "total_count = 0")
    case True
    then show ?thesis by simp
  next
    case False
    with tc have "reference_sets \<noteq> []" by auto
    with keys have "iter Qv \<noteq> []" by auto
    then have "0 < length (iter Qv)" by simp
    then have "0 < card Qv" unfolding len_keys .
    then show ?thesis by simp
  qed
  obtain idxs0 g1 where s: "rng_sample R (total_count * card Qv) total_count g = (idxs0, g1)"
    by (cases "rng_sample R (total_count * card Qv) total_count g")
  from ok le have "distinct (fst (rng_sample R (total_count * card Qv) total_count g))
      \<and> set (fst (rng_sample R (total_count * card Qv) total_count g))
           \<subseteq> {0 ..< total_count * card Qv}
      \<and> length (fst (rng_sample R (total_count * card Qv) total_count g)) = total_count"
    unfolding pyrandom_ok_def by blast
  then have d0: "distinct idxs0" and r0: "set idxs0 \<subseteq> {0 ..< total_count * card Qv}"
    and l0: "length idxs0 = total_count" unfolding s by simp_all
  obtain sh g2 where h: "rng_shuffle R idxs0 g1 = (sh, g2)"
    by (cases "rng_shuffle R idxs0 g1")
  from ok have "mset (fst (rng_shuffle R idxs0 g1)) = mset idxs0"
    unfolding pyrandom_ok_def by blast
  then have ms: "mset sh = mset idxs0" unfolding h by simp
  have d: "distinct sh" using ms d0 by (metis mset_eq_imp_distinct_iff)
  have r: "set sh \<subseteq> {0 ..< total_count * card Qv}" using mset_eq_setD[OF ms] r0 by simp
  have l: "length sh = total_count" using mset_eq_length[OF ms] l0 by simp
  have l': "length (concat (map snd reference_sets)) \<le> length sh" using l tc by simp
  have k: "distinct (map fst ([]::ref_table) @ map fst reference_sets)"
    using keys iq(2) by simp
  from assign_loop_result[OF d l' k] obtain tbl where
    a: "assign_loop reference_sets sh [] = Inr tbl" and
    tk: "map fst tbl = map fst reference_sets" and
    ti: "table_indices tbl = take (length (concat (map snd reference_sets))) (rev sh)" and
    ts: "table_ref_sets tbl = concat (map snd reference_sets)"
    by (auto simp add: table_indices_def table_ref_sets_def)
  have ti': "table_indices tbl = rev sh" unfolding ti using l tc by simp
  have lt: "length tbl = card Qv"
    using arg_cong[OF tk, of length] keys len_keys by simp
  have lr: "length reference_sets = card Qv"
    using arg_cong[OF keys, of length] len_keys by simp
  from le have nlt: "\<not> total_count * card Qv < total_count" by (simp only: not_less)
  have sr: "sample_range R (total_count * card Qv) total_count g = Inr (idxs0, g1)"
    unfolding sample_range_def if_not_P[OF nlt] s ..
  have run: "index_reference_sets R Qv reference_sets total_count g = Inr (tbl, g2)"
    unfolding index_reference_sets_def sr
    by (simp add: h a lt lr)
  show ?thesis
    by (intro exI[of _ tbl] exI[of _ g2] conjI)
      (simp_all add: run tk keys lt ti' d r l ts)
qed

text \<open>
  Claim C4. Take a generator that meets the library's contract, an enumeration that lists
  every element of a finite set once, and a finite set \<open>Qv\<close> of \<open>V\<close> vulnerable q-grams.
  Once the sampler has produced its \<open>T\<close> reference sets, the indexing of lines 89-101
  cannot fail, so \<^verbatim>\<open>generate_reference_sets\<close> returns; and in the table of a run that
  returns
  \<^item> the indices, over all vulnerable q-grams, are pairwise distinct and lie in
    \<open>[0, T\<cdot>V)\<close>;
  \<^item> the keys are the vulnerable q-grams, each once, so there are \<open>V\<close> of them;
  \<^item> there are \<open>T\<close> pairs of an index and a reference set, and their reference sets are
    the \<open>T\<close> sets that the sampler produced.
\<close>

theorem indexed_reference_sets_well_formed:
  assumes ok: "pyrandom_ok R" and it: "iter_ok iter" and fin: "finite (vuln_q_grams self)"
  shows
    "(build_reference_sets R iter self pub_db_q_gram_sets
        = Some (Inr (reference_sets, total_count, g)) \<longrightarrow>
      (\<exists>tbl g'. generate_reference_sets R iter self pub_db_q_gram_sets g0
          = Some (Inr (self\<lparr>indexed_ref_sets := Some tbl\<rparr>, g'))))
     \<and> (generate_reference_sets R iter self pub_db_q_gram_sets g0 = Some (Inr (self', g')) \<longrightarrow>
      (\<exists>reference_sets total_count g tbl.
          build_reference_sets R iter self pub_db_q_gram_sets
            = Some (Inr (reference_sets, total_count, g))
        \<and> indexed_ref_sets self' = Some tbl
        \<and> total_count = length (concat (map snd reference_sets))
        \<and> distinct (table_indices tbl)
        \<and> set (table_indices tbl) \<subseteq> {0 ..< total_count * card (vuln_q_grams self)}
        \<and> length (table_indices tbl) = total_count
        \<and> length (concat (map snd tbl)) = total_count
        \<and> table_ref_sets tbl = concat (map snd reference_sets)
        \<and> distinct (map fst tbl)
        \<and> set (map fst tbl) = vuln_q_grams self
        \<and> length tbl = card (vuln_q_grams self)))"
proof (intro conjI impI)
  assume b: "build_reference_sets R iter self pub_db_q_gram_sets
        = Some (Inr (reference_sets, total_count, g))"
  note k = build_reference_sets_keys[OF it fin b]
  from index_reference_sets_total[OF ok it fin k, of g] obtain tbl g' where
    "index_reference_sets R (vuln_q_grams self) reference_sets total_count g = Inr (tbl, g')"
    by blast
  with b have "generate_reference_sets R iter self pub_db_q_gram_sets g0
          = Some (Inr (self\<lparr>indexed_ref_sets := Some tbl\<rparr>, g'))"
    unfolding generate_reference_sets_def by simp
  then show "\<exists>tbl g'. generate_reference_sets R iter self pub_db_q_gram_sets g0
          = Some (Inr (self\<lparr>indexed_ref_sets := Some tbl\<rparr>, g'))" by blast
next
  assume a: "generate_reference_sets R iter self pub_db_q_gram_sets g0 = Some (Inr (self', g'))"
  then obtain rs tc g1 tbl where
    b: "build_reference_sets R iter self pub_db_q_gram_sets = Some (Inr (rs, tc, g1))" and
    i: "index_reference_sets R (vuln_q_grams self) rs tc g1 = Inr (tbl, g')" and
    s: "self' = self\<lparr>indexed_ref_sets := Some tbl\<rparr>"
    unfolding generate_reference_sets_def
    by (auto split: option.splits sum.splits)
  note k = build_reference_sets_keys[OF it fin b]
  from index_reference_sets_total[OF ok it fin k, of g1] i have
    tk: "map fst tbl = iter (vuln_q_grams self)" and
    lt: "length tbl = card (vuln_q_grams self)" and
    d: "distinct (table_indices tbl)" and
    r: "set (table_indices tbl) \<subseteq> {0 ..< tc * card (vuln_q_grams self)}" and
    l: "length (table_indices tbl) = tc" and
    ts: "table_ref_sets tbl = concat (map snd rs)"
    by auto
  from it fin have iq: "set (iter (vuln_q_grams self)) = vuln_q_grams self"
    "distinct (iter (vuln_q_grams self))"
    unfolding iter_ok_def by simp_all
  have pairs: "length (concat (map snd tbl)) = tc"
    using l unfolding table_indices_def by (simp add: length_concat comp_def)
  have st: "indexed_ref_sets self' = Some tbl" using s by simp
  have dk: "distinct (map fst tbl)" unfolding tk by (rule iq(2))
  have sk: "set (map fst tbl) = vuln_q_grams self" unfolding tk by (rule iq(1))
  show "\<exists>reference_sets total_count g tbl.
          build_reference_sets R iter self pub_db_q_gram_sets
            = Some (Inr (reference_sets, total_count, g))
        \<and> indexed_ref_sets self' = Some tbl
        \<and> total_count = length (concat (map snd reference_sets))
        \<and> distinct (table_indices tbl)
        \<and> set (table_indices tbl) \<subseteq> {0 ..< total_count * card (vuln_q_grams self)}
        \<and> length (table_indices tbl) = total_count
        \<and> length (concat (map snd tbl)) = total_count
        \<and> table_ref_sets tbl = concat (map snd reference_sets)
        \<and> distinct (map fst tbl)
        \<and> set (map fst tbl) = vuln_q_grams self
        \<and> length tbl = card (vuln_q_grams self)"
    by (intro exI[of _ rs] exI[of _ tc] exI[of _ g1] exI[of _ tbl] conjI)
      (rule b st k(2) d r l pairs ts dk sk lt)+
qed

lemma two_keys_example_pools:
  "co_occurrence_pools sorted_list_of_set {''er'', ''th''} [(''p1'', {''th'', ''er'', ''ab''})]
   = Inr [(''er'', {''th'', ''ab''}), (''th'', {''er'', ''ab''})]"
proof -
  have keys: "sorted_list_of_set {''er'', ''th''} = [''er'', ''th'']" by simp
  have inter: "{''th'', ''er'', ''ab''} \<inter> {''er'', ''th''} = {''er'', ''th''}" by auto
  have d1: "{''th'', ''er'', ''ab''} - {''er''} = {''th'', ''ab''}" by auto
  have d2: "{''th'', ''er'', ''ab''} - {''th''} = {''er'', ''ab''}" by auto
  show ?thesis
    unfolding co_occurrence_pools_def by (simp add: keys inter d1 d2)
qed

lemma two_keys_example_build:
  "build_reference_sets counter_rng sorted_list_of_set
      (VAH_init 7 {''er'', ''th''} [] 2) [(''p1'', {''th'', ''er'', ''ab''})]
   = Some (Inr ([(''er'', [{''ab'', ''th''}]), (''th'', [{''ab'', ''er''}])], 2, 7))"
proof -
  have seed: "rng_seed counter_rng 7 = 7" by (simp add: counter_rng_def)
  have o1: "sorted_list_of_set {''th'', ''ab''} = [''ab'', ''th'']" by simp
  have o2: "sorted_list_of_set {''er'', ''ab''} = [''ab'', ''er'']" by simp
  have starts: "py_range_step (length [a, b]) 2 = Inr [0]" for a b :: qgram
    by (simp add: py_range_step_def)
  have p1: "ref_sets_for_pool counter_rng 2 [''ab'', ''th''] [] 7
      = Some (Inr (1, [{''ab'', ''th''}], 7))"
    unfolding ref_sets_for_pool_def starts by (simp add: make_ref_set_def Let_def)
  have p2: "ref_sets_for_pool counter_rng 2 [''ab'', ''er''] [] 7
      = Some (Inr (1, [{''ab'', ''er''}], 7))"
    unfolding ref_sets_for_pool_def starts by (simp add: make_ref_set_def Let_def)
  show ?thesis
    unfolding build_reference_sets_def
    by (simp add: VAH_init_def two_keys_example_pools seed o1 o2 p1 p2)
qed

lemma two_keys_example_generate:
  "generate_reference_sets counter_rng sorted_list_of_set
      (VAH_init 7 {''er'', ''th''} [] 2) [(''p1'', {''th'', ''er'', ''ab''})] 0
   = Some (Inr ((VAH_init 7 {''er'', ''th''} [] 2)
        \<lparr>indexed_ref_sets :=
            Some [(''er'', [(0, {''ab'', ''th''})]), (''th'', [(1, {''ab'', ''er''})])]\<rparr>, 7))"
proof -
  have index: "index_reference_sets counter_rng {''er'', ''th''}
      [(''er'', [{''ab'', ''th''}]), (''th'', [{''ab'', ''er''}])] 2 7
    = Inr ([(''er'', [(0, {''ab'', ''th''})]), (''th'', [(1, {''ab'', ''er''})])], 7)"
    unfolding index_reference_sets_def
    by (simp add: sample_range_def counter_rng_def upt_rec)
  show ?thesis
    unfolding generate_reference_sets_def two_keys_example_build
    by (simp add: VAH_init_def index)
qed

theorem indexed_reference_sets_well_formed_witness:
  "pyrandom_ok counter_rng \<and> iter_ok sorted_list_of_set \<and> finite {''er'', ''th''}
   \<and> generate_reference_sets counter_rng sorted_list_of_set
        (VAH_init 7 {''er'', ''th''} [] 2) [(''p1'', {''th'', ''er'', ''ab''})] 0
     = Some (Inr ((VAH_init 7 {''er'', ''th''} [] 2)
          \<lparr>indexed_ref_sets :=
              Some [(''er'', [(0, {''ab'', ''th''})]), (''th'', [(1, {''ab'', ''er''})])]\<rparr>, 7))
   \<and> distinct (table_indices [(''er'', [(0, {''ab'', ''th''})]), (''th'', [(1, {''ab'', ''er''})])])
   \<and> set (table_indices [(''er'', [(0, {''ab'', ''th''})]), (''th'', [(1, {''ab'', ''er''})])])
        \<subseteq> {0 ..< 2 * card {''er'', ''th''}}
   \<and> length (table_indices [(''er'', [(0, {''ab'', ''th''})]), (''th'', [(1, {''ab'', ''er''})])])
        = 2
   \<and> length [(''er'', [(0::nat, {''ab'', ''th''})]), (''th'', [(1, {''ab'', ''er''})])]
        = card {''er'', ''th''}"
proof -
  let ?self = "VAH_init 7 {''er'', ''th''} [] 2"
  let ?tbl = "[(''er'', [(0::nat, {''ab'', ''th''})]), (''th'', [(1, {''ab'', ''er''})])]"
  have qv: "vuln_q_grams ?self = {''er'', ''th''}" by (simp add: VAH_init_def)
  have fin: "finite (vuln_q_grams ?self)" unfolding qv by simp
  have fin': "finite {''er'', ''th''}" by simp
  note inst = indexed_reference_sets_well_formed[OF pyrandom_ok_counter_rng
      iter_ok_sorted_list_of_set fin,
      where pub_db_q_gram_sets = "[(''p1'', {''th'', ''er'', ''ab''})]" and ?g0.0 = 0
        and self' = "?self\<lparr>indexed_ref_sets := Some ?tbl\<rparr>" and g' = 7]
  from mp[OF conjunct2[OF inst] two_keys_example_generate]
  obtain reference_sets total_count g tbl where
    b: "build_reference_sets counter_rng sorted_list_of_set ?self
          [(''p1'', {''th'', ''er'', ''ab''})] = Some (Inr (reference_sets, total_count, g))" and
    t: "indexed_ref_sets (?self\<lparr>indexed_ref_sets := Some ?tbl\<rparr>) = Some tbl" and
    d: "distinct (table_indices tbl)" and
    r: "set (table_indices tbl) \<subseteq> {0 ..< total_count * card (vuln_q_grams ?self)}" and
    l: "length (table_indices tbl) = total_count" and
    lt: "length tbl = card (vuln_q_grams ?self)"
    by (elim exE conjE)
  from t have tbl: "tbl = ?tbl" by simp
  from b have tc: "total_count = 2" unfolding two_keys_example_build by simp
  show ?thesis
    by (intro conjI)
      (rule pyrandom_ok_counter_rng iter_ok_sorted_list_of_set fin' two_keys_example_generate
        d[unfolded tbl] r[unfolded tbl tc qv] l[unfolded tbl tc] lt[unfolded tbl qv])+
qed

subsection \<open>The sampler against its specification\<close>
















end
